theory Spec2Isabelle
  imports Main "HOL-Library.Multiset"
begin

section \<open>JavaScript values used by the search pipeline\<close>

text \<open>
  The repository is a TypeScript browser extension that queries content providers for a
  list of keywords, merges what they find and enriches it with metadata. This theory
  embeds the parts of the source that decide the behaviour of the pipeline:
  \<^verbatim>\<open>tokenize\<close> (utils), \<^verbatim>\<open>runSearch\<close> (services/aggregator), the Qiita provider
  (services/providers/qiita) and the per-item enrichers of the Zenn and Note providers.

  Text whose characters the code inspects (the query, scraped page text) is a list of
  UTF-16 code units, as a JavaScript string is. Text that is only stored and compared
  (URLs, provider ids, titles, dates) is a \<^typ>\<open>string\<close>.
\<close>

type_synonym jstext = "nat list"

text \<open>
  The characters matched by \<^verbatim>\<open>\s\<close> in a regular expression and removed by
  \<^verbatim>\<open>String.prototype.trim\<close> and by \<^verbatim>\<open>parseInt\<close>: ECMAScript's WhiteSpace and
  LineTerminator code points (TAB, LF, VT, FF, CR, SP, NBSP, U+1680, U+2000..U+200A,
  U+2028, U+2029, U+202F, U+205F, U+3000, U+FEFF).
\<close>

definition is_space :: "nat \<Rightarrow> bool" where
  "is_space c \<longleftrightarrow>
     c = 9 \<or> c = 10 \<or> c = 11 \<or> c = 12 \<or> c = 13 \<or> c = 32 \<or> c = 160 \<or> c = 5760
     \<or> (8192 \<le> c \<and> c \<le> 8202)
     \<or> c = 8232 \<or> c = 8233 \<or> c = 8239 \<or> c = 8287 \<or> c = 12288 \<or> c = 65279"

text \<open>The character class \<^verbatim>\<open>[\s&]\<close> of \<^verbatim>\<open>tokenize\<close>; 38 is the ampersand.\<close>

definition is_sep :: "nat \<Rightarrow> bool" where
  "is_sep c \<longleftrightarrow> is_space c \<or> c = 38"

text \<open>
  \<^verbatim>\<open>input.split(/[\s&]+/)\<close>: the fields between the maximal runs of separators. The
  first argument is the field being read, reversed. As in JavaScript, the empty input
  gives one empty field, and a separator at either end gives an empty field there.
\<close>

function split_from :: "jstext \<Rightarrow> jstext \<Rightarrow> jstext list" where
  "split_from cur [] = [rev cur]"
| "split_from cur (c # cs) =
     (if is_sep c then rev cur # split_from [] (dropWhile is_sep cs)
      else split_from (c # cur) cs)"
  by pat_completeness auto
termination
  by (relation "measure (\<lambda>(cur, s). length s)")
     (auto simp: less_Suc_eq_le length_dropWhile_le)

definition split_seps :: "jstext \<Rightarrow> jstext list" where
  "split_seps input = split_from [] input"

definition trim :: "jstext \<Rightarrow> jstext" where
  "trim s = rev (dropWhile is_space (rev (dropWhile is_space s)))"

text \<open>
  \<^verbatim>\<open>
  export function tokenize(input: string): string[] {
    return input.split(/[\s&]+/).map(s => s.trim()).filter(Boolean);
  }
  \<close>
  \<^verbatim>\<open>filter(Boolean)\<close> keeps the strings that are not empty.
\<close>

definition tokenize :: "jstext \<Rightarrow> jstext list" where
  "tokenize input = filter (\<lambda>s. s \<noteq> []) (map trim (split_seps input))"

text \<open>
  The numbers the code meets as counts: \<^verbatim>\<open>NaN\<close>, the two infinities, and the doubles
  that are integers (\<^verbatim>\<open>-0\<close> is not told from \<^verbatim>\<open>0\<close>; both are falsy).
\<close>

datatype jsnum = NaN | Num int | PosInfinity | NegInfinity

text \<open>
  The Number value of a natural number: the number itself below \<open>2 ^ 53\<close>; above, it is
  rounded to 53 significant bits, ties to the even neighbour, and becomes
  \<^verbatim>\<open>Infinity\<close> when the rounded value reaches \<open>2 ^ 1024\<close>. \<open>bit_length n\<close> is the
  number of binary digits of \<open>n\<close>.
\<close>

fun bit_length :: "nat \<Rightarrow> nat" where
  "bit_length n = (if n = 0 then 0 else Suc (bit_length (n div 2)))"

declare bit_length.simps [simp del]

definition to_double :: "nat \<Rightarrow> jsnum" where
  "to_double n =
     (if n < 2 ^ 53 then Num (int n)
      else (let e = bit_length n - 53;
                q = n div 2 ^ e;
                r = n mod 2 ^ e;
                q' = (if 2 ^ (e - 1) < r \<or> (r = 2 ^ (e - 1) \<and> odd q) then q + 1 else q)
            in if 2 ^ 1024 \<le> q' * 2 ^ e then PosInfinity else Num (int (q' * 2 ^ e))))"

definition negate :: "jsnum \<Rightarrow> jsnum" where
  "negate v =
     (case v of NaN \<Rightarrow> NaN | Num n \<Rightarrow> Num (- n) | PosInfinity \<Rightarrow> NegInfinity
      | NegInfinity \<Rightarrow> PosInfinity)"

definition is_digit :: "nat \<Rightarrow> bool" where
  "is_digit c \<longleftrightarrow> 48 \<le> c \<and> c \<le> 57"

fun digits_value :: "nat \<Rightarrow> jstext \<Rightarrow> nat" where
  "digits_value acc [] = acc"
| "digits_value acc (c # cs) = digits_value (acc * 10 + (c - 48)) cs"

text \<open>
  \<^verbatim>\<open>parseInt(s, 10)\<close>: leading white space is skipped, one sign is read (45 is the
  minus, 43 the plus), then the longest run of decimal digits; no digit gives
  \<^verbatim>\<open>NaN\<close>, and what follows the digits is ignored. The result is the Number value of
  the integer that the digits denote, with the sign. (Past the 20th significant digit
  ECMAScript lets an implementation read a digit as 0; here every digit counts.)
\<close>

definition parseInt :: "jstext \<Rightarrow> jsnum" where
  "parseInt s =
     (let S = dropWhile is_space s;
          neg = (case S of [] \<Rightarrow> False | c # _ \<Rightarrow> c = 45);
          body = (case S of [] \<Rightarrow> [] | c # r \<Rightarrow> if c = 45 \<or> c = 43 then r else S);
          Z = takeWhile is_digit body
      in if Z = [] then NaN
         else if neg then negate (to_double (digits_value 0 Z))
         else to_double (digits_value 0 Z))"

text \<open>Truthiness of an optional number and of an optional string.\<close>

definition truthy_num :: "jsnum option \<Rightarrow> bool" where
  "truthy_num v =
     (case v of None \<Rightarrow> False | Some NaN \<Rightarrow> False | Some (Num n) \<Rightarrow> n \<noteq> 0
      | Some PosInfinity \<Rightarrow> True | Some NegInfinity \<Rightarrow> True)"

definition truthy_str :: "'a list option \<Rightarrow> bool" where
  "truthy_str v = (case v of None \<Rightarrow> False | Some s \<Rightarrow> s \<noteq> [])"

text \<open>\<^verbatim>\<open>a || b\<close> on optional strings, and \<^verbatim>\<open>a || undefined\<close>.\<close>

definition or_else :: "'a list option \<Rightarrow> 'a list option \<Rightarrow> 'a list option" where
  "or_else a b = (if truthy_str a then a else b)"

text \<open>
  \<^verbatim>\<open>Math.ceil(a / b)\<close> for integers \<open>a\<close> and \<open>b > 0\<close> (\<open>div\<close> rounds down).
\<close>

definition ceil_div :: "int \<Rightarrow> int \<Rightarrow> int" where
  "ceil_div a b = - ((- a) div b)"

text \<open>
  \<^verbatim>\<open>xs.slice(0, n)\<close> for an integer \<open>n\<close>: a negative \<open>n\<close> counts from the end.
\<close>

definition slice0 :: "int \<Rightarrow> 'a list \<Rightarrow> 'a list" where
  "slice0 n xs = (if n < 0 then take (nat (int (length xs) + n)) xs else take (nat n) xs)"

section \<open>The data model (types.ts)\<close>

text \<open>
  The object of the Qiita API that the search step stores in \<^verbatim>\<open>raw\<close>; only the fields
  the code reads.
\<close>

record api_item =
  api_url :: string
  api_title :: "string option"
  created_at :: "string option"
  likes_count :: "jsnum option"

text \<open>
  \<^verbatim>\<open>FoundItem\<close> and \<^verbatim>\<open>EnrichedItem = FoundItem & {publishedAt?, likeCount?, viewCount?}\<close>.
  The code uses a \<^verbatim>\<open>FoundItem\<close> where an \<^verbatim>\<open>EnrichedItem\<close> is expected
  (\<^verbatim>\<open>let enriched: EnrichedItem[] = discovered\<close>), so both are one record whose optional
  fields are \<open>None\<close> when absent.
\<close>

record item =
  url :: string
  source :: string
  title :: "string option"
  snippet :: "string option"
  rank :: "int option"
  raw :: "api_item option"
  publishedAt :: "string option"
  likeCount :: "jsnum option"
  viewCount :: "jsnum option"

text \<open>
  A value that is thrown or with which a promise rejects. The code only reads its
  \<^verbatim>\<open>name\<close>: \<open>AbortError\<close> is a value whose name is \<^verbatim>\<open>'AbortError'\<close>, \<open>OtherError\<close> any
  other value whose name can be read (with a text that tells it, such as
  \<^verbatim>\<open>TypeError\<close>), and \<open>Nullish\<close> is \<^verbatim>\<open>null\<close> or \<^verbatim>\<open>undefined\<close>, of which reading
  \<^verbatim>\<open>.name\<close> throws a \<^verbatim>\<open>TypeError\<close>.
\<close>

datatype error = AbortError | OtherError string | Nullish

text \<open>
  What a call of a method that is to return a promise does: it throws before it returns
  (a method that is not declared \<^verbatim>\<open>async\<close> can), or it returns a promise that rejects,
  or one that resolves.
\<close>

datatype 'a outcome = Throws error | Rejects error | Resolves 'a

text \<open>
  The \<^verbatim>\<open>AbortSignal\<close>. Its flag only ever goes from false to true, and an asynchronous
  function reads it at its own check points, which are numbered so that a later one has
  a greater number. What the function sees is therefore given by the number from which
  on its check points read true: \<open>Some t\<close>, or \<open>None\<close> when the caller never aborts
  while the function runs. \<open>aborted sig t\<close> is what check point \<open>t\<close> reads.
\<close>

type_synonym signal = "nat option"

definition aborted :: "signal \<Rightarrow> nat \<Rightarrow> bool" where
  "aborted sig t = (case sig of None \<Rightarrow> False | Some a \<Rightarrow> a \<le> t)"

record provider_options =
  tokens :: "jstext list"
  maxDiscover :: int

text \<open>
  \<^verbatim>\<open>interface Provider\<close>. The field \<^verbatim>\<open>id\<close> is named \<open>provider_id\<close> here. \<open>search\<close>
  and \<open>enrich\<close> give what the call of the method does in the run; the provider's own
  view of the signal is part of the provider value.
\<close>

record provider =
  provider_id :: string
  displayName :: string
  search :: "provider_options \<Rightarrow> item list outcome"
  enrich :: "item list \<Rightarrow> item list outcome"

section \<open>The aggregation engine (runSearch)\<close>

record run_options =
  tokens :: "jstext list"
  providers :: "provider list"
  maxTotal :: int
  signal :: signal

text \<open>
  \<^verbatim>\<open>const perProviderTarget = Math.ceil(maxTotal / Math.max(1, providers.length));\<close>
\<close>

definition perProviderTarget :: "int \<Rightarrow> provider list \<Rightarrow> int" where
  "perProviderTarget m ps = ceil_div m (max 1 (int (length ps)))"

text \<open>
  The body of the \<^verbatim>\<open>then\<close> callback of one search promise, on the state
  \<open>(seenUrls, discovered)\<close>:
  \<^verbatim>\<open>
  for (const item of items) {
    if (signal.aborted) break;
    if (!seenUrls.has(item.url)) { seenUrls.add(item.url); discovered.push(item); }
  }
  \<close>
  The callback runs without interruption, so every iteration reads the same flag \<open>ab\<close>.
\<close>

fun merge_items :: "bool \<Rightarrow> item list \<Rightarrow> string set \<times> item list \<Rightarrow> string set \<times> item list" where
  "merge_items ab [] st = st"
| "merge_items ab (it # its) (seen, discovered) =
     (if ab then (seen, discovered)
      else if url it \<notin> seen
        then merge_items ab its (insert (url it) seen, discovered @ [it])
        else merge_items ab its (seen, discovered))"

text \<open>
  What evaluating the body of a \<^verbatim>\<open>catch\<close> handler of \<open>runSearch\<close> throws, if anything:
  \<^verbatim>\<open>
  if (err.name !== 'AbortError') console.error(`Error searching ${p.displayName}:`, err);
  \<close>
  Reading \<^verbatim>\<open>err.name\<close> throws a \<^verbatim>\<open>TypeError\<close> when \<^verbatim>\<open>err\<close> is \<^verbatim>\<open>null\<close> or \<^verbatim>\<open>undefined\<close>.
\<close>

definition catch_handler :: "error \<Rightarrow> error option" where
  "catch_handler err = (case err of Nullish \<Rightarrow> Some (OtherError ''TypeError'') | _ \<Rightarrow> None)"

text \<open>
  The first of a list of calls that throws, if one does: \<^verbatim>\<open>providers.map(p => ...)\<close>
  calls the methods one after the other, and an exception of a call ends the \<^verbatim>\<open>map\<close>
  and \<open>runSearch\<close> with it, the handlers being attached to the promise that the call
  returns.
\<close>

fun first_throw :: "'a outcome list \<Rightarrow> error option" where
  "first_throw [] = None"
| "first_throw (Throws err # calls) = Some err"
| "first_throw (Rejects err # calls) = first_throw calls"
| "first_throw (Resolves v # calls) = first_throw calls"

text \<open>
  One settled search promise, \<^verbatim>\<open>p.search(...).then(items => ...).catch(err => ...)\<close>:
  a resolved one merges, a rejected one runs the handler, which only logs (and not even
  that for an \<^verbatim>\<open>AbortError\<close>) or throws. \<open>Inl\<close> is the rejection of the promise that
  \<^verbatim>\<open>catch\<close> returns. (A call that threw has returned no promise; nothing settles.)
\<close>

definition on_settled ::
  "bool \<Rightarrow> item list outcome \<Rightarrow> string set \<times> item list \<Rightarrow> error + string set \<times> item list" where
  "on_settled ab call st =
     (case call of
        Resolves items \<Rightarrow> Inr (merge_items ab items st)
      | Rejects err \<Rightarrow> (case catch_handler err of None \<Rightarrow> Inr st | Some e \<Rightarrow> Inl e)
      | Throws err \<Rightarrow> Inr st)"

text \<open>
  \<^verbatim>\<open>await Promise.all(searchPromises)\<close>. All searches are started at once; their
  callbacks run in the order in which the promises settle, which the scheduler decides:
  \<open>order\<close> lists the providers' positions in that order (a position outside the list
  settles nothing). The callback of the \<open>k\<close>-th promise to settle is check point \<open>k\<close> of
  the signal, check point 0 being the entry of \<open>runSearch\<close>. The state is the first
  rejection among the promises of \<^verbatim>\<open>searchPromises\<close>, with which \<^verbatim>\<open>Promise.all\<close>
  rejects, and \<open>(seenUrls, discovered)\<close>.
\<close>

fun discover_loop ::
  "provider list \<Rightarrow> provider_options \<Rightarrow> signal \<Rightarrow> nat \<Rightarrow> nat list
     \<Rightarrow> error option \<times> string set \<times> item list \<Rightarrow> error option \<times> string set \<times> item list" where
  "discover_loop ps po sig t [] acc = acc"
| "discover_loop ps po sig t (i # order) (rejection, st) =
     discover_loop ps po sig (Suc t) order
       (if i < length ps
        then (case on_settled (aborted sig t) (search (ps ! i) po) st of
                Inr st' \<Rightarrow> (rejection, st')
              | Inl e \<Rightarrow> ((case rejection of None \<Rightarrow> Some e | Some e' \<Rightarrow> Some e'), st))
        else (rejection, st))"

definition search_options :: "run_options \<Rightarrow> provider_options" where
  "search_options opts =
     \<lparr> provider_options.tokens = tokens opts,
       maxDiscover = perProviderTarget (maxTotal opts) (providers opts) \<rparr>"

text \<open>
  The calls \<^verbatim>\<open>p.search({ tokens, maxDiscover: perProviderTarget }, signal)\<close>, in the
  order of \<^verbatim>\<open>providers\<close>.
\<close>

definition searchCalls :: "run_options \<Rightarrow> item list outcome list" where
  "searchCalls opts = map (\<lambda>p. search p (search_options opts)) (providers opts)"

text \<open>
  The array \<^verbatim>\<open>discovered\<close> when all search promises have settled, and the rejection of
  \<^verbatim>\<open>Promise.all(searchPromises)\<close>, if it rejects.
\<close>

definition discovered :: "run_options \<Rightarrow> nat list \<Rightarrow> item list" where
  "discovered opts order =
     snd (snd (discover_loop (providers opts) (search_options opts) (signal opts) 1 order
                 (None, {}, [])))"

definition searchRejection :: "run_options \<Rightarrow> nat list \<Rightarrow> error option" where
  "searchRejection opts order =
     fst (discover_loop (providers opts) (search_options opts) (signal opts) 1 order
            (None, {}, []))"

text \<open>
  \<^verbatim>\<open>providers.find(p => p.id === item.source)\<close>, as the position of the provider found.
  The map \<^verbatim>\<open>itemsToEnrichByProvider\<close> is keyed by the provider object that \<^verbatim>\<open>find\<close>
  returned, which is always the first one with that id: its position identifies it.
\<close>

fun find_provider :: "provider list \<Rightarrow> string \<Rightarrow> nat option" where
  "find_provider [] src = None"
| "find_provider (p # ps) src =
     (if provider_id p = src then Some 0 else map_option Suc (find_provider ps src))"

text \<open>
  \<^verbatim>\<open>
  if (!itemsToEnrichByProvider.has(provider)) itemsToEnrichByProvider.set(provider, []);
  itemsToEnrichByProvider.get(provider)!.push(item);
  \<close>
  A \<^verbatim>\<open>Map\<close> keeps its keys in the order of their insertion, so it is an association list.
\<close>

fun add_to_group :: "nat \<Rightarrow> item \<Rightarrow> (nat \<times> item list) list \<Rightarrow> (nat \<times> item list) list" where
  "add_to_group k it [] = [(k, [it])]"
| "add_to_group k it ((j, its) # gs) =
     (if j = k then (j, its @ [it]) # gs else (j, its) # add_to_group k it gs)"

fun group_items ::
  "provider list \<Rightarrow> item list \<Rightarrow> (nat \<times> item list) list \<Rightarrow> (nat \<times> item list) list" where
  "group_items ps [] gs = gs"
| "group_items ps (it # its) gs =
     (case find_provider ps (source it) of
        None \<Rightarrow> group_items ps its gs
      | Some k \<Rightarrow> group_items ps its (add_to_group k it gs))"

definition itemsToEnrichByProvider :: "run_options \<Rightarrow> nat list \<Rightarrow> (nat \<times> item list) list" where
  "itemsToEnrichByProvider opts order = group_items (providers opts) (discovered opts order) []"

text \<open>
  The calls \<^verbatim>\<open>provider.enrich(items, signal)\<close>, in the order of the entries of the map.
\<close>

definition enrichCalls :: "run_options \<Rightarrow> nat list \<Rightarrow> item list outcome list" where
  "enrichCalls opts order =
     map (\<lambda>g. enrich (providers opts ! fst g) (snd g)) (itemsToEnrichByProvider opts order)"

text \<open>
  One promise of the enrichment:
  \<^verbatim>\<open>
  provider.enrich(items, signal).catch(err => {
    if (err.name !== 'AbortError') console.error(`Error enriching ${provider.displayName}:`, err);
    return items; // Return non-enriched on error
  })
  \<close>
  \<open>Inl\<close> is its rejection: the handler throws when it cannot read \<^verbatim>\<open>err.name\<close>.
\<close>

definition enrich_group :: "item list \<Rightarrow> item list outcome \<Rightarrow> error + item list" where
  "enrich_group items call =
     (case call of
        Resolves out \<Rightarrow> Inr out
      | Rejects err \<Rightarrow> (case catch_handler err of None \<Rightarrow> Inr items | Some e \<Rightarrow> Inl e)
      | Throws err \<Rightarrow> Inr items)"

text \<open>
  \<^verbatim>\<open>Promise.all\<close> of promises that have all been created: the list of their values, or
  a rejection when one rejects. (The promises of the enrichment can only reject with
  the handler's \<^verbatim>\<open>TypeError\<close>, so it does not matter which one rejects first.)
\<close>

fun promise_all :: "(error + 'a) list \<Rightarrow> error + 'a list" where
  "promise_all [] = Inr []"
| "promise_all (Inl e # ps) = Inl e"
| "promise_all (Inr v # ps) = (case promise_all ps of Inl e \<Rightarrow> Inl e | Inr vs \<Rightarrow> Inr (v # vs))"

definition enrichedChunks :: "run_options \<Rightarrow> nat list \<Rightarrow> error + item list list" where
  "enrichedChunks opts order =
     promise_all (map (\<lambda>g. enrich_group (snd g) (enrich (providers opts ! fst g) (snd g)))
                      (itemsToEnrichByProvider opts order))"

text \<open>\<^verbatim>\<open>enriched = enrichedChunks.flat()\<close>, when the await of the chunks returns.\<close>

definition enriched :: "run_options \<Rightarrow> nat list \<Rightarrow> error + item list" where
  "enriched opts order =
     (case enrichedChunks opts order of Inl e \<Rightarrow> Inl e | Inr chunks \<Rightarrow> Inr (concat chunks))"

text \<open>
  \<^verbatim>\<open>
  export async function runSearch(opts: RunOptions): Promise<EnrichedItem[]> {
    if (signal.aborted) throw new DOMException('Aborted', 'AbortError');
    const searchPromises = providers.map(p => p.search(...).then(...).catch(...));
    await Promise.all(searchPromises);
    if (signal.aborted) throw new DOMException('Aborted', 'AbortError');
    ...
    const enrichedChunks = await Promise.all(
      Array.from(itemsToEnrichByProvider.entries()).map(([provider, items]) =>
        provider.enrich(items, signal).catch(...)));
    enriched = enrichedChunks.flat();
    if (signal.aborted) throw new DOMException('Aborted', 'AbortError');
    return enriched.slice(0, maxTotal);
  }
  \<close>
  The three checks of the signal are its check points 0, \<open>length order + 1\<close> (after the
  callbacks of the search promises) and \<open>length order + 2\<close> (after the enrichment).
  \<open>runSearch\<close> rejects with whatever is thrown in its body: the \<^verbatim>\<open>AbortError\<close> of a
  check, the exception of a call of \<open>search\<close> or \<open>enrich\<close>, or the rejection of an
  awaited \<^verbatim>\<open>Promise.all\<close>.
\<close>

definition runSearch :: "run_options \<Rightarrow> nat list \<Rightarrow> error + item list" where
  "runSearch opts order =
     (if aborted (signal opts) 0 then Inl AbortError
      else
        (case first_throw (searchCalls opts) of
           Some e \<Rightarrow> Inl e
         | None \<Rightarrow>
             (case searchRejection opts order of
                Some e \<Rightarrow> Inl e
              | None \<Rightarrow>
                  if aborted (signal opts) (length order + 1) then Inl AbortError
                  else
                    (case first_throw (enrichCalls opts order) of
                       Some e \<Rightarrow> Inl e
                     | None \<Rightarrow>
                         (case enriched opts order of
                            Inl e \<Rightarrow> Inl e
                          | Inr items \<Rightarrow>
                              if aborted (signal opts) (length order + 2) then Inl AbortError
                              else Inr (slice0 (maxTotal opts) items))))))"

subsection \<open>Notions used to state what the engine computes\<close>

text \<open>What a search hands to the merge: the items it resolves with, or nothing.\<close>

definition contribution :: "item list outcome \<Rightarrow> item list" where
  "contribution call = (case call of Resolves items \<Rightarrow> items | _ \<Rightarrow> [])"

text \<open>
  All discovery results of a run, in the order in which they reach the merge: the
  results of the providers, one after the other in the order in which their promises
  settle.
\<close>

definition arrivals :: "run_options \<Rightarrow> nat list \<Rightarrow> item list" where
  "arrivals opts order =
     concat (map (\<lambda>i. contribution (search (providers opts ! i) (search_options opts)))
                 (filter (\<lambda>i. i < length (providers opts)) order))"

text \<open>
  Specification of the merge: the items of a list whose URL is neither in \<open>seen\<close> nor
  carried by an earlier item of the list.
\<close>

fun first_seen :: "string set \<Rightarrow> item list \<Rightarrow> item list" where
  "first_seen seen [] = []"
| "first_seen seen (x # xs) =
     (if url x \<in> seen then first_seen seen xs else x # first_seen (insert (url x) seen) xs)"

text \<open>
  The invariant of the merge state \<open>(seenUrls, discovered)\<close>: the set holds the URLs of
  the list, and no URL is in the list twice.
\<close>

definition merge_inv :: "string set \<times> item list \<Rightarrow> bool" where
  "merge_inv st \<longleftrightarrow> fst st = set (map url (snd st)) \<and> distinct (map url (snd st))"

section \<open>The Qiita provider (services/providers/qiita.ts)\<close>

text \<open>
  The request \<^verbatim>\<open>https://qiita.com/api/v2/items?query=${q}&page=${page}&per_page=${perPage}\<close>,
  given by its three parameters (the query before its encoding by
  \<^verbatim>\<open>encodeURIComponent\<close>), and what comes back: \<^verbatim>\<open>fetch\<close> rejects, \<^verbatim>\<open>res.ok\<close> is false
  (with the status), \<^verbatim>\<open>res.json()\<close> rejects, the value is not an array, or it is an
  array of API objects.
\<close>

record request =
  query :: jstext
  page :: int
  per_page :: int

datatype api_response = FetchRejected | NotOk nat | JsonRejected | NotArray | Items "api_item list"

definition perPage :: int where
  "perPage = 100"

text \<open>
  The strings that \<^verbatim>\<open>encodeURIComponent\<close> accepts: those in which every high surrogate
  (U+D800 to U+DBFF) is followed by a low one (U+DC00 to U+DFFF) and every low one
  follows a high one. On any other string it throws a \<^verbatim>\<open>URIError\<close>.
\<close>

definition is_high_surrogate :: "nat \<Rightarrow> bool" where
  "is_high_surrogate c \<longleftrightarrow> 55296 \<le> c \<and> c \<le> 56319"

definition is_low_surrogate :: "nat \<Rightarrow> bool" where
  "is_low_surrogate c \<longleftrightarrow> 56320 \<le> c \<and> c \<le> 57343"

fun well_formed :: "jstext \<Rightarrow> bool" where
  "well_formed [] = True"
| "well_formed [c] = (\<not> is_high_surrogate c \<and> \<not> is_low_surrogate c)"
| "well_formed (c # d # cs) =
     (if is_high_surrogate c then is_low_surrogate d \<and> well_formed cs
      else \<not> is_low_surrogate c \<and> well_formed (d # cs))"

text \<open>\<^verbatim>\<open>opts.tokens.join(' ')\<close>\<close>

fun join_space :: "jstext list \<Rightarrow> jstext" where
  "join_space [] = []"
| "join_space [t] = t"
| "join_space (t # ts) = t @ [32] @ join_space ts"

text \<open>
  The object pushed for the \<open>idx\<close>-th element of the page \<open>pg\<close>:
  \<^verbatim>\<open>
  { url: item.url, source: 'qiita', title: item.title,
    rank: (page - 1) * perPage + idx + 1, raw: item }
  \<close>
\<close>

definition found_item :: "int \<Rightarrow> nat \<Rightarrow> api_item \<Rightarrow> item" where
  "found_item pg idx r =
     \<lparr> url = api_url r, source = ''qiita'', title = api_title r, snippet = None,
       rank = Some ((pg - 1) * perPage + int idx + 1), raw = Some r,
       publishedAt = None, likeCount = None, viewCount = None \<rparr>"

text \<open>
  \<^verbatim>\<open>
  data.forEach((item, idx) => {
    if (foundItems.length < opts.maxDiscover) foundItems.push({...});
  });
  \<close>
\<close>

fun push_page :: "int \<Rightarrow> int \<Rightarrow> nat \<Rightarrow> api_item list \<Rightarrow> item list \<Rightarrow> item list" where
  "push_page maxD pg idx [] foundItems = foundItems"
| "push_page maxD pg idx (r # rs) foundItems =
     push_page maxD pg (Suc idx) rs
       (if int (length foundItems) < maxD then foundItems @ [found_item pg idx r]
        else foundItems)"

text \<open>
  The request for page \<open>pg\<close>, and what the \<^verbatim>\<open>try\<close> block gets for it. The iteration
  for page \<open>pg\<close> reads the signal at three check points: the loop condition
  (\<open>3 * (pg - 1)\<close>), the \<^verbatim>\<open>fetch\<close> (\<open>3 * (pg - 1) + 1\<close>) and the \<^verbatim>\<open>delay\<close>
  (\<open>3 * (pg - 1) + 2\<close>). A \<^verbatim>\<open>fetch\<close> whose signal is aborted rejects.
\<close>

definition page_request :: "provider_options \<Rightarrow> int \<Rightarrow> request" where
  "page_request opts pg =
     \<lparr> query = join_space (provider_options.tokens opts), page = pg, per_page = perPage \<rparr>"

definition fetch_page ::
  "(request \<Rightarrow> api_response) \<Rightarrow> signal \<Rightarrow> provider_options \<Rightarrow> int \<Rightarrow> api_response" where
  "fetch_page api sig opts pg =
     (if aborted sig (3 * nat (pg - 1) + 1) then FetchRejected else api (page_request opts pg))"

text \<open>
  The \<^verbatim>\<open>while\<close> loop of \<^verbatim>\<open>search\<close>, on the state \<open>(foundItems, page)\<close> and the list of
  the requests issued so far:
  \<^verbatim>\<open>
  while (foundItems.length < opts.maxDiscover && page <= maxPages && !signal.aborted) {
    try {
      const res = await fetch(url, { signal });
      if (!res.ok) break;
      const data = await res.json();
      if (!Array.isArray(data) || data.length === 0) break;
      data.forEach(...);
      page++;
      if (foundItems.length < opts.maxDiscover && data.length > 0 && page <= maxPages)
        await delay(600, signal);
    } catch (error) { break; }
  }
  \<close>
  Every \<^verbatim>\<open>break\<close> leaves the loop with the items found so far; so does a \<^verbatim>\<open>delay\<close>
  that rejects because the signal is aborted.
\<close>

function qiita_loop ::
  "(request \<Rightarrow> api_response) \<Rightarrow> signal \<Rightarrow> provider_options \<Rightarrow> int
     \<Rightarrow> item list \<Rightarrow> int \<Rightarrow> request list \<Rightarrow> item list \<times> request list" where
  "qiita_loop api sig opts maxPages foundItems pg reqs =
     (if int (length foundItems) < maxDiscover opts \<and> pg \<le> maxPages
         \<and> \<not> aborted sig (3 * nat (pg - 1))
      then
        (let reqs' = reqs @ [page_request opts pg]
         in case fetch_page api sig opts pg of
              Items data \<Rightarrow>
                if data = [] then (foundItems, reqs')
                else
                  (let foundItems' = push_page (maxDiscover opts) pg 0 data foundItems
                   in if int (length foundItems') < maxDiscover opts \<and> pg + 1 \<le> maxPages
                         \<and> aborted sig (3 * nat (pg - 1) + 2)
                      then (foundItems', reqs')
                      else qiita_loop api sig opts maxPages foundItems' (pg + 1) reqs')
            | _ \<Rightarrow> (foundItems, reqs'))
      else (foundItems, reqs))"
  by pat_completeness auto
termination
  by (relation "measure (\<lambda>(api, sig, opts, maxPages, foundItems, pg, reqs). nat (maxPages + 1 - pg))")
     auto

declare qiita_loop.simps [simp del]

text \<open>
  The part of \<^verbatim>\<open>search\<close> that follows the encoding of the query: the loop, entered
  with the page cap \<^verbatim>\<open>Math.ceil(opts.maxDiscover / perPage)\<close>, no item found, page 1 and
  no request issued. It gives \<^verbatim>\<open>foundItems\<close> as the loop leaves it and the requests
  issued.
\<close>

definition qiita_run ::
  "(request \<Rightarrow> api_response) \<Rightarrow> signal \<Rightarrow> provider_options \<Rightarrow> item list \<times> request list" where
  "qiita_run api sig opts =
     qiita_loop api sig opts (ceil_div (maxDiscover opts) perPage) [] 1 []"

text \<open>
  \<^verbatim>\<open>
  async search(opts: ProviderOptions, signal: AbortSignal): Promise<FoundItem[]> {
    const q = encodeURIComponent(opts.tokens.join(' '));
    ...
    while (...) { ... }
    return foundItems.slice(0, opts.maxDiscover);
  }
  \<close>
  The method is \<^verbatim>\<open>async\<close>, so it does not throw. The encoding of the query comes first
  and is outside the \<^verbatim>\<open>try\<close>: when it throws, the promise rejects and no page has been
  requested. Every await of the loop is inside the \<^verbatim>\<open>try\<close>.
\<close>

definition qiita_search ::
  "(request \<Rightarrow> api_response) \<Rightarrow> signal \<Rightarrow> provider_options \<Rightarrow> item list outcome" where
  "qiita_search api sig opts =
     (if \<not> well_formed (join_space (provider_options.tokens opts))
      then Rejects (OtherError ''URIError'')
      else Resolves (slice0 (maxDiscover opts) (fst (qiita_run api sig opts))))"

text \<open>The page requests that \<^verbatim>\<open>search\<close> hands to \<^verbatim>\<open>fetch\<close>, in order.\<close>

definition qiita_requests ::
  "(request \<Rightarrow> api_response) \<Rightarrow> signal \<Rightarrow> provider_options \<Rightarrow> request list" where
  "qiita_requests api sig opts =
     (if \<not> well_formed (join_space (provider_options.tokens opts)) then []
      else snd (qiita_run api sig opts))"

text \<open>
  To state what the search returns: the array that the fetch of page \<open>pg\<close> yields (empty
  when it yields none), its elements as items with their ranks, and the items of the
  pages 1 to \<open>k\<close> in order.
\<close>

definition page_data ::
  "(request \<Rightarrow> api_response) \<Rightarrow> signal \<Rightarrow> provider_options \<Rightarrow> int \<Rightarrow> api_item list" where
  "page_data api sig opts pg = (case fetch_page api sig opts pg of Items data \<Rightarrow> data | _ \<Rightarrow> [])"

definition page_items ::
  "(request \<Rightarrow> api_response) \<Rightarrow> signal \<Rightarrow> provider_options \<Rightarrow> int \<Rightarrow> item list" where
  "page_items api sig opts pg =
     map (\<lambda>(idx, r). found_item pg idx r) (enumerate 0 (page_data api sig opts pg))"

definition collected ::
  "(request \<Rightarrow> api_response) \<Rightarrow> signal \<Rightarrow> provider_options \<Rightarrow> int \<Rightarrow> item list" where
  "collected api sig opts k = concat (map (page_items api sig opts) [1..k])"

text \<open>
  What holds of the pages 1 to \<open>k\<close> when all of them were requested: each is within the
  page cap and was requested with fewer than \<open>maxDiscover\<close> items collected and the
  signal not aborted, and each but the last returned items.
\<close>

definition requested_ok ::
  "(request \<Rightarrow> api_response) \<Rightarrow> signal \<Rightarrow> provider_options \<Rightarrow> int \<Rightarrow> int \<Rightarrow> bool" where
  "requested_ok api sig opts maxPages k \<longleftrightarrow>
     (\<forall>p \<in> {1..k}. p \<le> maxPages
        \<and> int (length (collected api sig opts (p - 1))) < maxDiscover opts
        \<and> \<not> aborted sig (3 * nat (p - 1))
        \<and> (p < k \<longrightarrow> page_data api sig opts p \<noteq> []))"

text \<open>
  What holds of the last page \<open>k\<close> requested: it returned no item, or with it the count
  is reached, or it is the last page under the cap, or the signal is aborted when the
  next page would be requested.
\<close>

definition stops_at ::
  "(request \<Rightarrow> api_response) \<Rightarrow> signal \<Rightarrow> provider_options \<Rightarrow> int \<Rightarrow> int \<Rightarrow> bool" where
  "stops_at api sig opts maxPages k \<longleftrightarrow>
     page_data api sig opts k = []
     \<or> maxDiscover opts \<le> int (length (collected api sig opts k))
     \<or> maxPages \<le> k
     \<or> aborted sig (3 * nat k)"

text \<open>
  \<^verbatim>\<open>
  return items.map(item => {
    if (signal.aborted) throw new DOMException('Aborted', 'AbortError');
    const raw = item.raw;
    return { ...item, publishedAt: raw?.created_at, likeCount: raw?.likes_count,
             viewCount: undefined };
  });
  \<close>
  There is no await: every callback reads the flag as it is when \<^verbatim>\<open>enrich\<close> is called
  (check point 0).
\<close>

definition qiita_enrich_item :: "item \<Rightarrow> item" where
  "qiita_enrich_item it =
     it \<lparr> publishedAt := (case raw it of None \<Rightarrow> None | Some r \<Rightarrow> created_at r),
          likeCount := (case raw it of None \<Rightarrow> None | Some r \<Rightarrow> likes_count r),
          viewCount := None \<rparr>"

fun qiita_enrich_map :: "bool \<Rightarrow> item list \<Rightarrow> error + item list" where
  "qiita_enrich_map ab [] = Inr []"
| "qiita_enrich_map ab (it # its) =
     (if ab then Inl AbortError
      else (case qiita_enrich_map ab its of
              Inl err \<Rightarrow> Inl err
            | Inr out \<Rightarrow> Inr (qiita_enrich_item it # out)))"

text \<open>
  The method is \<^verbatim>\<open>async\<close>: the exception of a callback rejects the promise it returns.
\<close>

definition qiita_enrich :: "signal \<Rightarrow> item list \<Rightarrow> item list outcome" where
  "qiita_enrich sig items =
     (case qiita_enrich_map (aborted sig 0) items of
        Inl err \<Rightarrow> Rejects err
      | Inr out \<Rightarrow> Resolves out)"

text \<open>
  \<^verbatim>\<open>export const qiitaProvider: Provider\<close>, for a given remote API and the views that its
  two methods have of the signal.
\<close>

definition qiitaProvider :: "(request \<Rightarrow> api_response) \<Rightarrow> signal \<Rightarrow> signal \<Rightarrow> provider" where
  "qiitaProvider api sig_search sig_enrich =
     \<lparr> provider_id = ''qiita'', displayName = ''Qiita'',
       search = qiita_search api sig_search,
       enrich = qiita_enrich sig_enrich \<rparr>"

section \<open>The scraping providers' enrichment (zenn.ts, note.ts)\<close>

text \<open>
  What \<^verbatim>\<open>await fetch(item.url, { signal })\<close> followed by \<^verbatim>\<open>await res.text()\<close> and the
  parsing of the page gives: one of the awaits rejects, \<^verbatim>\<open>res.ok\<close> is false, or there
  is a document.
\<close>

datatype 'd fetched = Rejected | Failed | Document 'd

text \<open>
  One entry of \<^verbatim>\<open>ld.interactionStatistic\<close>. \<open>interactionType\<close> is \<open>None\<close> when the
  call \<^verbatim>\<open>stat.interactionType.includes(...)\<close> throws (the field is missing or has no
  such method); \<open>userInteractionCount\<close> is the field as the string that \<^verbatim>\<open>parseInt\<close>
  converts it to.
\<close>

record stat =
  interactionType :: "string option"
  userInteractionCount :: jstext

datatype interaction_statistic = Absent | NotAnArray | Stats "stat list"

record ld_json =
  datePublished :: "string option"
  dateCreated :: "string option"
  interactionStatistic :: interaction_statistic

text \<open>
  The text of the JSON-LD script as \<^verbatim>\<open>JSON.parse\<close> sees it: \<open>Unparsable\<close> when
  \<^verbatim>\<open>JSON.parse\<close> or the first access to \<^verbatim>\<open>ld\<close> throws.
\<close>

datatype ld_script = Unparsable | Parsed ld_json

text \<open>
  What the selectors of \<^verbatim>\<open>enrichZennItem\<close> find in the page: the JSON-LD script with
  a non-empty text, the \<^verbatim>\<open>datetime\<close> attribute of the first \<^verbatim>\<open>time[datetime]\<close>, and
  the text of the first \<^verbatim>\<open>span\<close> inside the first \<^verbatim>\<open>[class^="Like_container"]\<close>.
\<close>

record zenn_doc =
  ldJsonScript :: "ld_script option"
  timeDatetime :: "string option"
  likeCountText :: "jstext option"

text \<open>\<^verbatim>\<open>s.includes(needle)\<close> on strings.\<close>

fun js_includes :: "string \<Rightarrow> string \<Rightarrow> bool" where
  "js_includes [] needle = (needle = [])"
| "js_includes (c # cs) needle = (take (length needle) (c # cs) = needle \<or> js_includes cs needle)"

text \<open>
  \<^verbatim>\<open>ld.interactionStatistic.find(stat => stat.interactionType.includes('LikeAction'))\<close>;
  \<open>Inl\<close> when the callback throws before an entry is found.
\<close>

fun find_like :: "stat list \<Rightarrow> unit + stat option" where
  "find_like [] = Inr None"
| "find_like (s # ss) =
     (case interactionType s of
        None \<Rightarrow> Inl ()
      | Some ty \<Rightarrow> if js_includes ty ''LikeAction'' then Inr (Some s) else find_like ss)"

text \<open>
  The inner \<^verbatim>\<open>try\<close> block: the values of \<open>(publishedAt, likeCount)\<close> after it.
  \<^verbatim>\<open>
  const ld = JSON.parse(ldJsonScript.textContent);
  publishedAt = ld.datePublished || ld.dateCreated;
  if (ld.interactionStatistic) {
    const likeInteraction = ld.interactionStatistic.find(...);
    if (likeInteraction) likeCount = parseInt(likeInteraction.userInteractionCount, 10);
  }
  \<close>
  An exception leaves the variables as they are when it is thrown.
\<close>

definition zenn_json_ld :: "ld_script option \<Rightarrow> string option \<times> jsnum option" where
  "zenn_json_ld script =
     (case script of
        None \<Rightarrow> (None, None)
      | Some Unparsable \<Rightarrow> (None, None)
      | Some (Parsed ld) \<Rightarrow>
          (let published = or_else (datePublished ld) (dateCreated ld)
           in case interactionStatistic ld of
                Absent \<Rightarrow> (published, None)
              | NotAnArray \<Rightarrow> (published, None)
              | Stats ss \<Rightarrow>
                  (case find_like ss of
                     Inl _ \<Rightarrow> (published, None)
                   | Inr None \<Rightarrow> (published, None)
                   | Inr (Some likeInteraction) \<Rightarrow>
                       (published, Some (parseInt (userInteractionCount likeInteraction))))))"

text \<open>
  \<^verbatim>\<open>enrichZennItem\<close>, given what the fetch of \<^verbatim>\<open>item.url\<close> produced. Both early exits
  return \<^verbatim>\<open>{ ...item }\<close>.
  \<^verbatim>\<open>
  if (!publishedAt) publishedAt = timeEl?.getAttribute('datetime') || undefined;
  if (!likeCount) {
    const likeCountText = likeButton?.querySelector('span')?.textContent;
    if (likeCountText) likeCount = parseInt(likeCountText, 10);
  }
  return { ...item, publishedAt, likeCount };
  \<close>
\<close>

definition enrichZennItem :: "zenn_doc fetched \<Rightarrow> item \<Rightarrow> item" where
  "enrichZennItem res it =
     (case res of
        Rejected \<Rightarrow> it
      | Failed \<Rightarrow> it
      | Document doc \<Rightarrow>
          (let (published1, like1) = zenn_json_ld (ldJsonScript doc);
               published2 = (if \<not> truthy_str published1 then or_else (timeDatetime doc) None
                             else published1);
               like2 = (if \<not> truthy_num like1
                        then (case likeCountText doc of
                                None \<Rightarrow> like1
                              | Some txt \<Rightarrow> if txt \<noteq> [] then Some (parseInt txt) else like1)
                        else like1)
           in it \<lparr> publishedAt := published2, likeCount := like2 \<rparr>))"

text \<open>
  What \<^verbatim>\<open>enrichNoteItem\<close> reads from the page: the \<^verbatim>\<open>datetime\<close> attribute of the first
  \<^verbatim>\<open>time[datetime]\<close> and \<^verbatim>\<open>doc.body.textContent || ''\<close>.
\<close>

record note_doc =
  noteDatetime :: "string option"
  bodyText :: jstext

text \<open>The class \<^verbatim>\<open>[0-9,]\<close>; 44 is the comma.\<close>

definition is_count_char :: "nat \<Rightarrow> bool" where
  "is_count_char c \<longleftrightarrow> is_digit c \<or> c = 44"

text \<open>
  \<^verbatim>\<open>bodyText.match(/\<close>SUKI\<^verbatim>\<open>\s*([0-9,]+)/)\<close>, where SUKI stands for the two katakana
  U+30B9 U+30AD (12473, 12461): the capture group of the leftmost match. At one start
  position the white space and then the counter characters are taken greedily; giving
  back white space cannot make the group match, so a position either matches so or not
  at all.
\<close>

definition match_here :: "jstext \<Rightarrow> jstext option" where
  "match_here t =
     (case t of
        a # b # rest \<Rightarrow>
          if a = 12473 \<and> b = 12461
          then (let cap = takeWhile is_count_char (dropWhile is_space rest)
                in if cap = [] then None else Some cap)
          else None
      | _ \<Rightarrow> None)"

fun like_match :: "jstext \<Rightarrow> jstext option" where
  "like_match [] = None"
| "like_match (c # cs) =
     (case match_here (c # cs) of Some cap \<Rightarrow> Some cap | None \<Rightarrow> like_match cs)"

text \<open>
  \<^verbatim>\<open>
  const publishedAt = timeEl?.getAttribute('datetime') || undefined;
  const likeMatch = bodyText.match(...);
  const likeCount = likeMatch ? parseInt(likeMatch[1].replace(/,/g, ''), 10) : undefined;
  return { ...item, publishedAt, likeCount };
  \<close>
\<close>

definition enrichNoteItem :: "note_doc fetched \<Rightarrow> item \<Rightarrow> item" where
  "enrichNoteItem res it =
     (case res of
        Rejected \<Rightarrow> it
      | Failed \<Rightarrow> it
      | Document doc \<Rightarrow>
          it \<lparr> publishedAt := or_else (noteDatetime doc) None,
               likeCount := (case like_match (bodyText doc) of
                               None \<Rightarrow> None
                             | Some cap \<Rightarrow> Some (parseInt (filter (\<lambda>c. c \<noteq> 44) cap))) \<rparr>)"

text \<open>
  The loop of \<^verbatim>\<open>zennProvider.enrich\<close> and of \<^verbatim>\<open>noteProvider.enrich\<close>, which differ only in
  the function applied to an item:
  \<^verbatim>\<open>
  for (const item of items) {
    if (signal.aborted) throw new DOMException('Aborted', 'AbortError');
    const enrichedItem = await enrichZennItem(item, signal);
    enrichedItems.push(enrichedItem);
    await delay(300 + Math.random() * 200, signal);
  }
  return enrichedItems;
  \<close>
  \<open>web\<close> is what fetching a URL gives. The iteration that starts at check point \<open>t\<close>
  reads the signal there, in the fetch (\<open>t + 1\<close>; an aborted fetch rejects, which the
  item function catches) and in the delay (\<open>t + 2\<close>; an aborted delay rejects, and
  nothing catches that).
\<close>

fun enrich_loop ::
  "('d fetched \<Rightarrow> item \<Rightarrow> item) \<Rightarrow> (string \<Rightarrow> 'd fetched) \<Rightarrow> signal \<Rightarrow> nat
     \<Rightarrow> item list \<Rightarrow> item list \<Rightarrow> item list outcome" where
  "enrich_loop enrichItem web sig t [] enrichedItems = Resolves enrichedItems"
| "enrich_loop enrichItem web sig t (it # its) enrichedItems =
     (if aborted sig t then Rejects AbortError
      else
        (let enrichedItem = enrichItem (if aborted sig (t + 1) then Rejected else web (url it)) it
         in if aborted sig (t + 2) then Rejects AbortError
            else enrich_loop enrichItem web sig (t + 3) its (enrichedItems @ [enrichedItem])))"

definition zenn_enrich :: "(string \<Rightarrow> zenn_doc fetched) \<Rightarrow> signal \<Rightarrow> item list \<Rightarrow> item list outcome" where
  "zenn_enrich web sig items = enrich_loop enrichZennItem web sig 0 items []"

definition note_enrich :: "(string \<Rightarrow> note_doc fetched) \<Rightarrow> signal \<Rightarrow> item list \<Rightarrow> item list outcome" where
  "note_enrich web sig items = enrich_loop enrichNoteItem web sig 0 items []"

subsection \<open>Notions used to state what enrichment does\<close>

text \<open>
  \<open>enriches a b\<close>: the item \<open>b\<close> carries every field of the found item \<open>a\<close>; the two may
  differ in \<open>publishedAt\<close>, \<open>likeCount\<close> and \<open>viewCount\<close> only.
\<close>

definition enriches :: "item \<Rightarrow> item \<Rightarrow> bool" where
  "enriches a b \<longleftrightarrow>
     url b = url a \<and> source b = source a \<and> title b = title a \<and> snippet b = snippet a
     \<and> rank b = rank a \<and> raw b = raw a"

text \<open>A like count as the data model wants it: absent, or an integer that is not negative.\<close>

definition valid_count :: "jsnum option \<Rightarrow> bool" where
  "valid_count v = (case v of None \<Rightarrow> True | Some (Num n) \<Rightarrow> 0 \<le> n | Some _ \<Rightarrow> False)"

section \<open>Example runs\<close>

text \<open>
  A remote API with one page of three articles, two of them at the same URL, and the
  run of the application, whose only provider is Qiita.
\<close>

definition example_article :: "string \<Rightarrow> api_item" where
  "example_article u =
     \<lparr> api_url = u, api_title = Some ''title'', created_at = Some ''2024-01-01T00:00:00Z'',
       likes_count = Some (Num 42) \<rparr>"

definition example_api :: "request \<Rightarrow> api_response" where
  "example_api r =
     (if page r = 1
      then Items [example_article ''u1'', example_article ''u2'', example_article ''u1'']
      else Items [])"

text \<open>A remote API every page of which is full.\<close>

definition full_api :: "request \<Rightarrow> api_response" where
  "full_api r = Items (replicate 100 (example_article ''u''))"

definition example_run :: "int \<Rightarrow> signal \<Rightarrow> run_options" where
  "example_run m sig =
     \<lparr> tokens = [[97]], providers = [qiitaProvider example_api None None],
       maxTotal = m, signal = sig \<rparr>"

text \<open>
  Providers given by what their calls do: \<open>provider_a\<close> finds one item and enriches,
  \<open>provider_b\<close> finds one item and fails to enrich.
\<close>

definition example_item :: "string \<Rightarrow> string \<Rightarrow> item" where
  "example_item u s =
     \<lparr> url = u, source = s, title = None, snippet = None, rank = Some 1, raw = None,
       publishedAt = None, likeCount = None, viewCount = None \<rparr>"

definition provider_a :: provider where
  "provider_a =
     \<lparr> provider_id = ''a'', displayName = ''A'',
       search = (\<lambda>opts. Resolves [example_item ''u1'' ''a'']),
       enrich = (\<lambda>items. Resolves (map (\<lambda>it. it \<lparr> likeCount := Some (Num 1) \<rparr>) items)) \<rparr>"

definition provider_b :: provider where
  "provider_b =
     \<lparr> provider_id = ''b'', displayName = ''B'',
       search = (\<lambda>opts. Resolves [example_item ''u2'' ''b'']),
       enrich = (\<lambda>items. Rejects (OtherError ''enrich failed'')) \<rparr>"

text \<open>
  A provider whose \<open>search\<close> is not \<^verbatim>\<open>async\<close> and throws an \<^verbatim>\<open>Error\<close> when called, and a
  provider that finds one item and whose \<open>enrich\<close> returns \<^verbatim>\<open>Promise.reject()\<close>, a
  promise rejected with \<^verbatim>\<open>undefined\<close>.
\<close>

definition provider_throwing :: provider where
  "provider_throwing =
     \<lparr> provider_id = ''c'', displayName = ''C'',
       search = (\<lambda>opts. Throws (OtherError ''Error: boom'')),
       enrich = (\<lambda>items. Resolves items) \<rparr>"

definition provider_rejecting :: provider where
  "provider_rejecting =
     \<lparr> provider_id = ''d'', displayName = ''D'',
       search = (\<lambda>opts. Resolves [example_item ''u4'' ''d'']),
       enrich = (\<lambda>items. Rejects Nullish) \<rparr>"

text \<open>
  A run over \<open>provider_a\<close> and \<open>provider_b\<close>, with a requested maximum \<open>m\<close>; each
  provider is asked for \<open>ceil (m / 2)\<close> items.
\<close>

definition degradation_run :: "int \<Rightarrow> run_options" where
  "degradation_run m =
     \<lparr> tokens = [[97]], providers = [provider_a, provider_b], maxTotal = m, signal = None \<rparr>"

text \<open>
  A Zenn page with a JSON-LD block that gives the date and 42 likes, and a site that
  serves it at \<open>z1\<close> and nothing else.
\<close>

definition example_zenn_doc :: zenn_doc where
  "example_zenn_doc =
     \<lparr> ldJsonScript = Some (Parsed
         \<lparr> datePublished = Some ''2024-01-01T00:00:00Z'', dateCreated = None,
           interactionStatistic = Stats
             [\<lparr> interactionType = Some ''https://schema.org/LikeAction'',
                userInteractionCount = [52, 50] \<rparr>] \<rparr>),
       timeDatetime = None, likeCountText = None \<rparr>"

definition example_zenn_web :: "string \<Rightarrow> zenn_doc fetched" where
  "example_zenn_web u = (if u = ''z1'' then Document example_zenn_doc else Failed)"

text \<open>
  A Zenn page without JSON-LD whose like button reads \<^verbatim>\<open>Like\<close>, and a Note page whose
  text reads a comma after the marker.
\<close>

definition zenn_doc_label :: zenn_doc where
  "zenn_doc_label = \<lparr> ldJsonScript = None, timeDatetime = None, likeCountText = Some [76, 105, 107, 101] \<rparr>"

definition note_doc_comma :: note_doc where
  "note_doc_comma = \<lparr> noteDatetime = None, bodyText = [12473, 12461, 44, 32] \<rparr>"

section \<open>Properties of the tokenizer\<close>

lemma is_space_is_sep: "is_space c \<Longrightarrow> is_sep c"
  by (simp add: is_sep_def)

lemma split_from_fields:
  "\<forall>c \<in> set cur. \<not> is_sep c \<Longrightarrow> f \<in> set (split_from cur s) \<Longrightarrow> c \<in> set f \<Longrightarrow> \<not> is_sep c"
  by (induction cur s rule: split_from.induct) (auto split: if_splits)

lemma concat_split_from:
  "concat (split_from cur s) = rev cur @ filter (\<lambda>c. \<not> is_sep c) s"
proof (induction cur s rule: split_from.induct)
  case (1 cur)
  show ?case by simp
next
  case (2 cur c cs)
  have drop: "filter (\<lambda>c. \<not> is_sep c) (dropWhile is_sep cs) = filter (\<lambda>c. \<not> is_sep c) cs"
    by (induction cs) auto
  from 2 show ?case by (simp add: drop)
qed

lemma trim_no_space: "\<forall>c \<in> set f. \<not> is_space c \<Longrightarrow> trim f = f"
proof -
  assume a: "\<forall>c \<in> set f. \<not> is_space c"
  have "dropWhile is_space f = f" using a by (cases f) auto
  moreover have "dropWhile is_space (rev f) = rev f" using a by (cases "rev f") (auto dest: arg_cong[where f=set])
  ultimately show ?thesis by (simp add: trim_def)
qed

lemma tokenize_fields: "tokenize s = filter (\<lambda>f. f \<noteq> []) (split_from [] s)"
proof -
  have "map trim (split_from [] s) = split_from [] s"
  proof (rule map_idI)
    fix f assume "f \<in> set (split_from [] s)"
    then have "\<forall>c \<in> set f. \<not> is_sep c" using split_from_fields[of "[]" f s] by auto
    then have "\<forall>c \<in> set f. \<not> is_space c" using is_space_is_sep by blast
    then show "trim f = f" by (rule trim_no_space)
  qed
  then show ?thesis by (simp add: tokenize_def split_seps_def)
qed

lemma concat_filter_nonempty: "concat (filter (\<lambda>f. f \<noteq> []) xs) = concat xs"
  by (induction xs) auto

lemma tokenize_concat: "concat (tokenize s) = filter (\<lambda>c. \<not> is_sep c) s"
  by (simp add: tokenize_fields concat_filter_nonempty concat_split_from)

lemma tokenize_token: "t \<in> set (tokenize s) \<Longrightarrow> t \<noteq> [] \<and> (\<forall>c \<in> set t. \<not> is_sep c)"
  using split_from_fields[of "[]" t s] by (auto simp: tokenize_fields)

lemma tokenize_empty_iff: "tokenize s = [] \<longleftrightarrow> (\<forall>c \<in> set s. is_sep c)"
proof
  assume "tokenize s = []"
  then have "filter (\<lambda>c. \<not> is_sep c) s = []" using tokenize_concat[of s] by simp
  then show "\<forall>c \<in> set s. is_sep c" by (simp add: filter_empty_conv)
next
  assume a: "\<forall>c \<in> set s. is_sep c"
  show "tokenize s = []"
  proof (rule ccontr)
    assume "tokenize s \<noteq> []"
    then obtain t ts where ts: "tokenize s = t # ts" by (cases "tokenize s") auto
    then have "t \<in> set (tokenize s)" by simp
    then have t: "t \<noteq> []" "\<forall>c \<in> set t. \<not> is_sep c" using tokenize_token by auto
    then obtain c where "c \<in> set t" by (cases t) auto
    then have "c \<in> set (concat (tokenize s))" using ts by auto
    then have "c \<in> set s" "\<not> is_sep c" by (auto simp: tokenize_concat)
    with a show False by blast
  qed
qed

lemma skip_leading:
  "filter (\<lambda>f. f \<noteq> []) (split_from [] (dropWhile is_sep b)) = filter (\<lambda>f. f \<noteq> []) (split_from [] b)"
proof (cases b)
  case Nil then show ?thesis by simp
next
  case (Cons x xs) then show ?thesis by simp
qed

lemma split_from_append:
  "is_sep c \<Longrightarrow>
   filter (\<lambda>f. f \<noteq> []) (split_from cur (a @ c # b)) =
   filter (\<lambda>f. f \<noteq> []) (split_from cur a) @ filter (\<lambda>f. f \<noteq> []) (split_from [] b)"
proof (induction cur a rule: split_from.induct)
  case (1 cur)
  then show ?case by (simp add: skip_leading)
next
  case (2 cur x xs)
  show ?case
  proof (cases "is_sep x")
    case False
    with 2 show ?thesis by simp
  next
    case True
    show ?thesis
    proof (cases "\<forall>y \<in> set xs. is_sep y")
      case all: True
      then have d1: "dropWhile is_sep xs = []" by simp
      have d2: "dropWhile is_sep (xs @ c # b) = dropWhile is_sep b"
        using all 2(3) by (simp add: dropWhile_append)
      have l: "split_from cur ((x # xs) @ c # b) = rev cur # split_from [] (dropWhile is_sep b)"
        by (simp only: append_Cons split_from.simps True if_True d2)
      have r: "split_from cur (x # xs) = [rev cur, []]"
        by (simp only: split_from.simps True if_True d1 rev.simps)
      show ?thesis unfolding l r by (simp add: skip_leading)
    next
      case False
      then have d2: "dropWhile is_sep (xs @ c # b) = dropWhile is_sep xs @ c # b"
        by (auto simp: dropWhile_append)
      have l: "split_from cur ((x # xs) @ c # b) = rev cur # split_from [] (dropWhile is_sep xs @ c # b)"
        by (simp only: append_Cons split_from.simps True if_True d2)
      have r: "split_from cur (x # xs) = rev cur # split_from [] (dropWhile is_sep xs)"
        by (simp only: split_from.simps True if_True)
      show ?thesis unfolding l r using 2(1)[OF True 2(3)] by simp
    qed
  qed
qed

lemma tokenize_append:
  "is_sep c \<Longrightarrow> tokenize (a @ c # b) = tokenize a @ tokenize b"
  by (simp add: tokenize_fields split_from_append)

lemma split_from_plain: "\<forall>c \<in> set t. \<not> is_sep c \<Longrightarrow> split_from cur t = [rev cur @ t]"
  by (induction t arbitrary: cur) auto

lemma tokenize_plain: "t \<noteq> [] \<Longrightarrow> \<forall>c \<in> set t. \<not> is_sep c \<Longrightarrow> tokenize t = [t]"
  by (simp add: tokenize_fields split_from_plain)

text \<open>
  Claim C9, amended. For every query string, \<open>tokenize\<close> splits it at the runs of
  white space and ampersands and discards the empty pieces: every token it returns is
  non-empty and holds no separator, the tokens are in the order of the input (joined,
  they are the input without its separators), a separator splits the work
  (\<open>tokenize (a @ c # b) = tokenize a @ tokenize b\<close>), and a non-empty string without
  a separator is one token. The list itself is empty exactly when the input holds
  nothing but separators; it is not always non-empty.
\<close>

theorem tokenize_tokens:
  "(\<forall>t \<in> set (tokenize input). t \<noteq> [] \<and> (\<forall>c \<in> set t. \<not> is_sep c))
   \<and> concat (tokenize input) = filter (\<lambda>c. \<not> is_sep c) input
   \<and> (tokenize input = [] \<longleftrightarrow> (\<forall>c \<in> set input. is_sep c))
   \<and> (\<forall>a c b. input = a @ c # b \<and> is_sep c \<longrightarrow> tokenize input = tokenize a @ tokenize b)
   \<and> (input \<noteq> [] \<and> (\<forall>c \<in> set input. \<not> is_sep c) \<longrightarrow> tokenize input = [input])"
proof (intro conjI)
  show "\<forall>t \<in> set (tokenize input). t \<noteq> [] \<and> (\<forall>c \<in> set t. \<not> is_sep c)"
    using tokenize_token by blast
  show "concat (tokenize input) = filter (\<lambda>c. \<not> is_sep c) input"
    by (rule tokenize_concat)
  show "tokenize input = [] \<longleftrightarrow> (\<forall>c \<in> set input. is_sep c)"
    by (rule tokenize_empty_iff)
  show "\<forall>a c b. input = a @ c # b \<and> is_sep c \<longrightarrow> tokenize input = tokenize a @ tokenize b"
    using tokenize_append by blast
  show "input \<noteq> [] \<and> (\<forall>c \<in> set input. \<not> is_sep c) \<longrightarrow> tokenize input = [input]"
    using tokenize_plain by blast
qed

text \<open>The theorem at the query \<^verbatim>\<open>a & b\<close> and at two of its parts.\<close>

theorem tokenize_tokens_witness:
  "tokenize [97, 32, 38, 32, 98] = tokenize [97] @ tokenize [38, 32, 98]
   \<and> tokenize [97] = [[97]]
   \<and> [98] \<in> set (tokenize [97, 32, 38, 32, 98]) \<and> \<not> is_sep 98
   \<and> is_sep 32 \<and> is_sep 38 \<and> tokenize [32, 38] = []"
proof -
  have sep: "is_sep 32" "is_sep 38" "\<not> is_sep 97" "\<not> is_sep 98"
    by (simp_all add: is_sep_def is_space_def)
  have split: "[97, 32, 38, 32, 98] = [97] @ 32 # [38, 32, 98]" by simp
  have mem: "[98] \<in> set (tokenize [97, 32, 38, 32, 98])"
    by (simp add: tokenize_def split_seps_def trim_def is_sep_def is_space_def)
  note t1 = tokenize_tokens [of "[97, 32, 38, 32, 98]"]
  note t2 = tokenize_tokens [of "[97]"]
  note t3 = tokenize_tokens [of "[32, 38]"]
  have one: "tokenize [97, 32, 38, 32, 98] = tokenize [97] @ tokenize [38, 32, 98]"
    using t1 [THEN conjunct2, THEN conjunct2, THEN conjunct2, THEN conjunct1] split sep(1)
    by blast
  have two: "tokenize [97] = [[97]]"
    using t2 [THEN conjunct2, THEN conjunct2, THEN conjunct2, THEN conjunct2] sep(3) by simp
  have three: "tokenize [32, 38] = []"
    using t3 [THEN conjunct2, THEN conjunct2, THEN conjunct1] sep(1,2) by simp
  have four: "\<not> is_sep 98"
    using t1 [THEN conjunct1] mem by auto
  show ?thesis using one two three four mem sep(1,2) by blast
qed

text \<open>
  The claim as stated asks for a non-empty list. The empty query, the query \<^verbatim>\<open>&\<close>
  and a query of a space, an ideographic space and an ampersand give the empty list.
\<close>

theorem tokenize_empty_counterexample:
  "tokenize [] = [] \<and> tokenize [38] = [] \<and> tokenize [32, 12288, 38] = []"
  by (simp add: tokenize_def split_seps_def trim_def is_sep_def is_space_def)

section \<open>Properties of the aggregation engine\<close>

subsection \<open>The merge\<close>

lemma merge_items_aborted: "merge_items True items st = st"
  by (cases st) (cases items; simp)

lemma merge_items_first_seen:
  "merge_items False items (seen, disc) = (seen \<union> set (map url items), disc @ first_seen seen items)"
  by (induction items arbitrary: seen disc) auto

lemma first_seen_append:
  "first_seen seen (xs @ ys) = first_seen seen xs @ first_seen (seen \<union> set (map url xs)) ys"
  by (induction xs arbitrary: seen) (auto simp: insert_absorb)

lemma first_seen_not_seen: "x \<in> set (first_seen seen xs) \<Longrightarrow> url x \<notin> seen"
  by (induction xs arbitrary: seen) (auto split: if_splits)

lemma first_seen_urls: "set (map url (first_seen seen xs)) = set (map url xs) - seen"
  by (induction xs arbitrary: seen) auto

lemma first_seen_distinct: "distinct (map url (first_seen seen xs))"
  by (induction xs arbitrary: seen) (auto dest: first_seen_not_seen)

lemma first_seen_find:
  "x \<in> set (first_seen seen xs) \<Longrightarrow> List.find (\<lambda>y. url y = url x) xs = Some x"
proof (induction xs arbitrary: seen)
  case Nil
  then show ?case by simp
next
  case (Cons a xs)
  show ?case
  proof (cases "url a \<in> seen")
    case True
    with Cons.prems have x: "x \<in> set (first_seen seen xs)" by simp
    then have "url x \<notin> seen" by (rule first_seen_not_seen)
    with True have "url a \<noteq> url x" by auto
    with Cons.IH[OF x] show ?thesis by simp
  next
    case False
    with Cons.prems have "x = a \<or> x \<in> set (first_seen (insert (url a) seen) xs)" by simp
    then show ?thesis
    proof
      assume "x = a" then show ?thesis by simp
    next
      assume x: "x \<in> set (first_seen (insert (url a) seen) xs)"
      then have "url x \<notin> insert (url a) seen" by (rule first_seen_not_seen)
      then have "url a \<noteq> url x" by auto
      with Cons.IH[OF x] show ?thesis by simp
    qed
  qed
qed

lemma merge_items_inv: "merge_inv st \<Longrightarrow> merge_inv (merge_items ab items st)"
proof (cases ab)
  case True
  assume "merge_inv st"
  then show ?thesis using True by (simp add: merge_items_aborted)
next
  case False
  assume inv: "merge_inv st"
  obtain seen disc where st: "st = (seen, disc)" by (cases st)
  from inv st have seen: "seen = set (map url disc)" and d: "distinct (map url disc)"
    by (simp_all add: merge_inv_def)
  have "distinct (map url (disc @ first_seen seen items))"
    using d first_seen_distinct[of seen items] first_seen_urls[of seen items] seen
    by (auto simp: distinct_append)
  moreover have "seen \<union> set (map url items) = set (map url (disc @ first_seen seen items))"
    using first_seen_urls[of seen items] seen by auto
  ultimately show ?thesis using False st
    by (simp add: merge_items_first_seen merge_inv_def)
qed

text \<open>The state after a callback, whether the promise of the callback rejects or not.\<close>

lemma settled_state:
  "snd (case on_settled ab call st of Inr st' \<Rightarrow> (r, st') | Inl e \<Rightarrow> (f e, st))
     = merge_items ab (contribution call) st"
  by (cases call) (auto simp: on_settled_def contribution_def split: option.splits)

lemma discover_loop_state:
  "snd (discover_loop ps po sig t order (r, st)) =
     snd (discover_loop ps po sig t order (r', st))"
proof (induction order arbitrary: t r r' st)
  case Nil
  show ?case by simp
next
  case (Cons i order)
  show ?case
  proof (cases "i < length ps")
    case False
    then show ?thesis using Cons.IH by simp
  next
    case True
    show ?thesis
    proof (cases "on_settled (aborted sig t) (search (ps ! i) po) st")
      case (Inl e)
      with True show ?thesis using Cons.IH by simp
    next
      case (Inr st')
      with True show ?thesis using Cons.IH by simp
    qed
  qed
qed

lemma discover_loop_step:
  "i < length ps \<Longrightarrow>
   snd (discover_loop ps po sig t (i # order) (r, st)) =
     snd (discover_loop ps po sig (Suc t) order
            (r, merge_items (aborted sig t) (contribution (search (ps ! i) po)) st))"
proof -
  assume i: "i < length ps"
  let ?step = "case on_settled (aborted sig t) (search (ps ! i) po) st of
                Inr st' \<Rightarrow> (r, st')
              | Inl e \<Rightarrow> ((case r of None \<Rightarrow> Some e | Some e' \<Rightarrow> Some e'), st)"
  have s: "snd ?step = merge_items (aborted sig t) (contribution (search (ps ! i) po)) st"
    by (rule settled_state)
  have "discover_loop ps po sig t (i # order) (r, st) = discover_loop ps po sig (Suc t) order ?step"
    using i by simp
  also have "snd \<dots> = snd (discover_loop ps po sig (Suc t) order (r, snd ?step))"
    using discover_loop_state[of ps po sig "Suc t" order "fst ?step" "snd ?step" r] by simp
  finally show ?thesis using s by simp
qed

lemma discover_loop_skip:
  "\<not> i < length ps \<Longrightarrow>
   discover_loop ps po sig t (i # order) (r, st) = discover_loop ps po sig (Suc t) order (r, st)"
  by simp

lemma discover_loop_inv:
  "merge_inv st \<Longrightarrow> merge_inv (snd (discover_loop ps po sig t order (r, st)))"
proof (induction order arbitrary: t st)
  case Nil
  then show ?case by simp
next
  case (Cons i order)
  show ?case
  proof (cases "i < length ps")
    case True
    show ?thesis
      unfolding discover_loop_step[OF True]
      by (rule Cons.IH) (rule merge_items_inv[OF Cons.prems])
  next
    case False
    show ?thesis unfolding discover_loop_skip[OF False] by (rule Cons.IH[OF Cons.prems])
  qed
qed

lemma aborted_mono: "aborted sig t \<Longrightarrow> t \<le> t' \<Longrightarrow> aborted sig t'"
  by (auto simp: aborted_def split: option.splits)

lemma discover_loop_first_seen:
  "\<not> aborted sig (t + length order) \<Longrightarrow>
   snd (discover_loop ps po sig t order (r, seen, disc)) =
     (let arr = concat (map (\<lambda>i. contribution (search (ps ! i) po)) (filter (\<lambda>i. i < length ps) order))
      in (seen \<union> set (map url arr), disc @ first_seen seen arr))"
proof (induction order arbitrary: t seen disc)
  case Nil
  then show ?case by simp
next
  case (Cons i order)
  have now: "\<not> aborted sig t" using Cons.prems aborted_mono[of sig t "t + length (i # order)"] by auto
  have later: "\<not> aborted sig (Suc t + length order)" using Cons.prems by simp
  show ?case
  proof (cases "i < length ps")
    case True
    show ?thesis
      unfolding discover_loop_step[OF True]
      using Cons.IH[OF later] now True
      by (auto simp: merge_items_first_seen first_seen_append Let_def Un_assoc)
  next
    case False
    show ?thesis unfolding discover_loop_skip[OF False] using Cons.IH[OF later] False by simp
  qed
qed

lemma discovered_distinct: "distinct (map url (discovered opts order))"
proof -
  have "merge_inv ({}, [])" by (simp add: merge_inv_def)
  then have "merge_inv (snd (discover_loop (providers opts) (search_options opts) (signal opts) 1 order
                (None, {}, [])))"
    by (rule discover_loop_inv)
  then show ?thesis by (simp add: discovered_def merge_inv_def)
qed

lemma discovered_first_seen:
  "\<not> aborted (signal opts) (length order + 1) \<Longrightarrow> discovered opts order = first_seen {} (arrivals opts order)"
  using discover_loop_first_seen[of "signal opts" 1 order "providers opts" "search_options opts" None "{}" "[]"]
  by (simp add: discovered_def arrivals_def Let_def)

subsection \<open>Grouping and enrichment\<close>

lemma find_provider_Some:
  "find_provider ps src = Some k \<Longrightarrow> k < length ps \<and> provider_id (ps ! k) = src"
  by (induction ps arbitrary: k) (auto split: if_splits)

lemma add_to_group_mset:
  "mset (concat (map snd (add_to_group k it gs))) = mset (concat (map snd gs)) + {#it#}"
  by (induction gs) auto

lemma add_to_group_map_fst:
  "map fst (add_to_group k it gs) = (if k \<in> set (map fst gs) then map fst gs else map fst gs @ [k])"
proof (induction gs)
  case Nil
  show ?case by simp
next
  case (Cons g gs)
  obtain j its where g: "g = (j, its)" by (cases g)
  show ?case
  proof (cases "j = k")
    case True
    then show ?thesis by (simp add: g)
  next
    case False
    then show ?thesis using Cons.IH by (simp add: g)
  qed
qed

lemma add_to_group_keys: "set (map fst (add_to_group k it gs)) = insert k (set (map fst gs))"
  by (simp only: add_to_group_map_fst) auto

lemma group_items_mset:
  "mset (concat (map snd (group_items ps xs gs))) =
     mset (concat (map snd gs)) + mset (filter (\<lambda>x. find_provider ps (source x) \<noteq> None) xs)"
  by (induction xs arbitrary: gs) (auto simp: add_to_group_mset split: option.splits)

lemma group_items_keys:
  "\<forall>g \<in> set gs. fst g < length ps \<Longrightarrow> g \<in> set (group_items ps xs gs) \<Longrightarrow> fst g < length ps"
proof (induction xs arbitrary: gs)
  case Nil
  then show ?case by simp
next
  case (Cons x xs)
  show ?case
  proof (cases "find_provider ps (source x)")
    case None
    with Cons show ?thesis by simp
  next
    case (Some k)
    then have k: "k < length ps" using find_provider_Some by blast
    have "\<forall>g \<in> set (add_to_group k x gs). fst g < length ps"
    proof
      fix g assume "g \<in> set (add_to_group k x gs)"
      then have "fst g \<in> set (map fst (add_to_group k x gs))" by simp
      then have "fst g \<in> insert k (set (map fst gs))" by (simp only: add_to_group_keys)
      then show "fst g < length ps" using k Cons.prems(1) by auto
    qed
    from Cons.IH[OF this] Cons.prems(2) Some show ?thesis by simp
  qed
qed

lemma groups_keys:
  "g \<in> set (itemsToEnrichByProvider opts order) \<Longrightarrow> fst g < length (providers opts)"
  unfolding itemsToEnrichByProvider_def by (rule group_items_keys[of "[]"]) simp_all

lemma groups_distinct_urls:
  "distinct (map url (concat (map snd (itemsToEnrichByProvider opts order))))"
proof -
  let ?P = "\<lambda>x. find_provider (providers opts) (source x) \<noteq> None"
  have "mset (concat (map snd (itemsToEnrichByProvider opts order))) = mset (filter ?P (discovered opts order))"
    by (simp add: itemsToEnrichByProvider_def group_items_mset)
  then have "mset (map url (concat (map snd (itemsToEnrichByProvider opts order))))
           = mset (map url (filter ?P (discovered opts order)))"
    by (metis mset_map)
  moreover have "distinct (map url (filter ?P (discovered opts order)))"
    using discovered_distinct[of opts order] by (rule distinct_map_filter)
  ultimately show ?thesis by (metis mset_eq_imp_distinct_iff)
qed

lemma promise_all_Inr: "promise_all rs = Inr vs \<Longrightarrow> rs = map Inr vs"
proof (induction rs arbitrary: vs)
  case Nil
  then show ?case by simp
next
  case (Cons r rs)
  then show ?case by (cases r) (auto split: sum.splits)
qed

text \<open>
  When the await of the chunks returns, there is one chunk for each group, in order: the
  result of its enrichment, or the group itself when the enrichment rejected.
\<close>

lemma enriched_chunks:
  assumes "enriched opts order = Inr items"
  shows "\<exists>chunks. items = concat chunks
           \<and> list_all2 (\<lambda>g c. enrich_group (snd g) (enrich (providers opts ! fst g) (snd g)) = Inr c)
                (itemsToEnrichByProvider opts order) chunks"
proof -
  from assms obtain chunks where c: "enrichedChunks opts order = Inr chunks" "items = concat chunks"
    by (auto simp: enriched_def split: sum.splits)
  from c(1) have "map (\<lambda>g. enrich_group (snd g) (enrich (providers opts ! fst g) (snd g)))
                    (itemsToEnrichByProvider opts order) = map Inr chunks"
    unfolding enrichedChunks_def by (rule promise_all_Inr)
  then have "list_all2 (\<lambda>g c. enrich_group (snd g) (enrich (providers opts ! fst g) (snd g)) = Inr c)
                (itemsToEnrichByProvider opts order) chunks"
    by (simp add: list_all2_conv_all_nth list_eq_iff_nth_eq)
  with c(2) show ?thesis by blast
qed

lemma concat_urls:
  "list_all2 (\<lambda>g c. map url c = map url (snd g)) gs chunks \<Longrightarrow>
   map url (concat chunks) = map url (concat (map snd gs))"
  by (induction gs chunks rule: list_all2_induct) simp_all

lemma enriched_urls:
  assumes contract: "\<forall>p \<in> set (providers opts). \<forall>items out.
              enrich p items = Resolves out \<longrightarrow> map url out = map url items"
    and enr: "enriched opts order = Inr items"
  shows "map url items = map url (concat (map snd (itemsToEnrichByProvider opts order)))"
proof -
  let ?gs = "itemsToEnrichByProvider opts order"
  from enriched_chunks[OF enr] obtain chunks where items: "items = concat chunks"
    and all: "list_all2 (\<lambda>g c. enrich_group (snd g) (enrich (providers opts ! fst g) (snd g)) = Inr c)
                ?gs chunks"
    by blast
  have len: "length ?gs = length chunks" using all by (rule list_all2_lengthD)
  have "list_all2 (\<lambda>g c. map url c = map url (snd g)) ?gs chunks"
  proof (rule list_all2_all_nthI[OF len])
    fix n assume n: "n < length ?gs"
    let ?g = "?gs ! n" and ?c = "chunks ! n"
    have e: "enrich_group (snd ?g) (enrich (providers opts ! fst ?g) (snd ?g)) = Inr ?c"
      using all n by (rule list_all2_nthD)
    have "?g \<in> set ?gs" using n by simp
    then have p: "providers opts ! fst ?g \<in> set (providers opts)"
      using groups_keys by simp
    show "map url ?c = map url (snd ?g)"
    proof (cases "enrich (providers opts ! fst ?g) (snd ?g)")
      case (Resolves out)
      then have "?c = out" using e by (simp add: enrich_group_def)
      moreover have "map url out = map url (snd ?g)" using contract p Resolves by blast
      ultimately show ?thesis by simp
    next
      case (Rejects err)
      then show ?thesis using e by (auto simp: enrich_group_def split: option.splits)
    next
      case (Throws err)
      then show ?thesis using e by (simp add: enrich_group_def)
    qed
  qed
  then show ?thesis unfolding items by (rule concat_urls)
qed

subsection \<open>The result of a run\<close>

lemma slice0_nonneg: "0 \<le> n \<Longrightarrow> slice0 n xs = take (nat n) xs"
  by (simp add: slice0_def)

lemma slice0_length: "0 \<le> n \<Longrightarrow> int (length (slice0 n xs)) \<le> n"
  by (simp add: slice0_def)

lemma slice0_prefix: "\<exists>k. slice0 n xs = take k xs"
  by (auto simp: slice0_def Let_def)

lemma runSearch_Inr:
  assumes "runSearch opts order = Inr out"
  shows "\<exists>items. enriched opts order = Inr items \<and> out = slice0 (maxTotal opts) items"
  using assms by (auto simp: runSearch_def split: if_splits option.splits sum.splits)

lemma runSearch_distinct:
  assumes contract: "\<forall>p \<in> set (providers opts). \<forall>items out.
              enrich p items = Resolves out \<longrightarrow> map url out = map url items"
    and run: "runSearch opts order = Inr out"
  shows "distinct (map url out)"
proof -
  from runSearch_Inr[OF run] obtain items where
    items: "enriched opts order = Inr items" and out: "out = slice0 (maxTotal opts) items"
    by blast
  have "distinct (map url items)"
    using enriched_urls[OF contract items] groups_distinct_urls[of opts order] by simp
  moreover obtain k where "out = take k items" using out slice0_prefix by blast
  ultimately show ?thesis by (metis take_map distinct_take)
qed

subsection \<open>The frame of the providers' enrichment\<close>

lemma enriches_qiita: "enriches it (qiita_enrich_item it)"
  by (simp add: enriches_def qiita_enrich_item_def)

lemma enriches_zenn: "enriches it (enrichZennItem res it)"
  by (cases res) (simp_all add: enriches_def enrichZennItem_def Let_def split: prod.splits)

lemma enriches_note: "enriches it (enrichNoteItem res it)"
  by (cases res) (simp_all add: enriches_def enrichNoteItem_def)

lemma qiita_enrich_map_frame:
  "qiita_enrich_map ab items = Inr out \<Longrightarrow> list_all2 enriches items out"
  by (induction items arbitrary: out) (auto simp: enriches_qiita split: if_splits sum.splits)

lemma qiita_enrich_map_completes:
  "qiita_enrich_map False items = Inr (map qiita_enrich_item items)"
  by (induction items) auto

lemma qiita_enrich_frame:
  "qiita_enrich sig items = Resolves out \<Longrightarrow> list_all2 enriches items out"
  by (auto simp: qiita_enrich_def qiita_enrich_map_frame split: sum.splits)

lemma enrich_loop_frame:
  assumes "\<And>res it. enriches it (enrichItem res it)"
  shows "enrich_loop enrichItem web sig t items acc = Resolves out \<Longrightarrow>
         \<exists>new. out = acc @ new \<and> list_all2 enriches items new"
proof (induction items arbitrary: t acc out)
  case Nil
  then show ?case by simp
next
  case (Cons it its)
  let ?e = "enrichItem (if aborted sig (t + 1) then Rejected else web (url it)) it"
  from Cons.prems have rest: "enrich_loop enrichItem web sig (t + 3) its (acc @ [?e]) = Resolves out"
    by (simp add: Let_def split: if_splits)
  from Cons.IH[OF rest] obtain new where new: "out = (acc @ [?e]) @ new" "list_all2 enriches its new"
    by blast
  have "list_all2 enriches (it # its) (?e # new)" using new(2) assms by simp
  with new(1) show ?case by (intro exI[of _ "?e # new"]) simp
qed

lemma enrich_loop_completes:
  "\<exists>out. enrich_loop enrichItem web None t items acc = Resolves out"
  by (induction items arbitrary: t acc) (simp_all add: aborted_def Let_def)

lemma enriches_urls: "list_all2 enriches items out \<Longrightarrow> map url out = map url items"
  by (induction items out rule: list_all2_induct) (simp_all add: enriches_def)

lemma repository_enrich_urls:
  assumes "(\<exists>s. enrich p = qiita_enrich s) \<or> (\<exists>w s. enrich p = zenn_enrich w s)
             \<or> (\<exists>w s. enrich p = note_enrich w s)"
    and "enrich p items = Resolves out"
  shows "map url out = map url items"
proof -
  have "list_all2 enriches items out"
    using assms
  proof (elim disjE exE)
    fix s assume "enrich p = qiita_enrich s"
    with assms(2) show ?thesis by (simp add: qiita_enrich_frame)
  next
    fix w s assume "enrich p = zenn_enrich w s"
    with assms(2) have "enrich_loop enrichZennItem w s 0 items [] = Resolves out"
      by (simp add: zenn_enrich_def)
    from enrich_loop_frame[OF enriches_zenn this] show ?thesis by simp
  next
    fix w s assume "enrich p = note_enrich w s"
    with assms(2) have "enrich_loop enrichNoteItem w s 0 items [] = Resolves out"
      by (simp add: note_enrich_def)
    from enrich_loop_frame[OF enriches_note this] show ?thesis by simp
  qed
  then show ?thesis by (rule enriches_urls)
qed

lemmas example_defs = example_run_def example_api_def example_article_def qiitaProvider_def
  qiita_search_def qiita_requests_def qiita_run_def qiita_enrich_def perPage_def ceil_div_def
  slice0_def found_item_def aborted_def search_options_def perProviderTarget_def fetch_page_def
  page_request_def qiita_loop.simps is_high_surrogate_def is_low_surrogate_def

lemmas engine_defs = runSearch_def searchCalls_def searchRejection_def enrichCalls_def
  enriched_def enrichedChunks_def enrich_group_def catch_handler_def
  itemsToEnrichByProvider_def discovered_def on_settled_def arrivals_def contribution_def

subsection \<open>Deduplication by URL\<close>

text \<open>
  Claim C1. Whatever the providers discover and in whatever order their results arrive,
  no two items of the merged pool \<open>discovered\<close> share a URL. When the signal is not
  aborted by the check that follows the discovery (otherwise the run fails and the pool
  is not used), the pool is the list of all arriving items with every item dropped
  whose URL an earlier one carries: it holds exactly the URLs that arrived, and each of
  its items is the first arrival with its URL. Finally, no two items of the collection
  returned by \<open>runSearch\<close> share a URL: this holds when every provider's \<open>enrich\<close>
  returns the items it was given URL for URL (the contract of \<open>enrich\<close>), and so it
  holds for every list of providers whose \<open>enrich\<close> is that of the repository's Qiita,
  Zenn or Note provider.
\<close>

theorem merged_pool_unique_urls:
  "distinct (map url (discovered opts order))
   \<and> (\<not> aborted (signal opts) (length order + 1) \<longrightarrow>
         discovered opts order = first_seen {} (arrivals opts order)
       \<and> set (map url (discovered opts order)) = set (map url (arrivals opts order))
       \<and> (\<forall>x \<in> set (discovered opts order).
             List.find (\<lambda>y. url y = url x) (arrivals opts order) = Some x))
   \<and> ((\<forall>p \<in> set (providers opts). \<forall>items out.
           enrich p items = Resolves out \<longrightarrow> map url out = map url items) \<longrightarrow>
        (\<forall>out. runSearch opts order = Inr out \<longrightarrow> distinct (map url out)))
   \<and> ((\<forall>p \<in> set (providers opts).
           (\<exists>s. enrich p = qiita_enrich s) \<or> (\<exists>w s. enrich p = zenn_enrich w s)
           \<or> (\<exists>w s. enrich p = note_enrich w s)) \<longrightarrow>
        (\<forall>out. runSearch opts order = Inr out \<longrightarrow> distinct (map url out)))"
proof (intro conjI impI allI)
  show "distinct (map url (discovered opts order))"
    by (rule discovered_distinct)
next
  assume na: "\<not> aborted (signal opts) (length order + 1)"
  then show eq: "discovered opts order = first_seen {} (arrivals opts order)"
    by (rule discovered_first_seen)
  show "set (map url (discovered opts order)) = set (map url (arrivals opts order))"
    unfolding eq using first_seen_urls[of "{}" "arrivals opts order"] by simp
  show "\<forall>x \<in> set (discovered opts order).
          List.find (\<lambda>y. url y = url x) (arrivals opts order) = Some x"
    unfolding eq using first_seen_find by blast
next
  fix out
  assume "\<forall>p \<in> set (providers opts). \<forall>items out.
            enrich p items = Resolves out \<longrightarrow> map url out = map url items"
    and "runSearch opts order = Inr out"
  then show "distinct (map url out)" by (rule runSearch_distinct)
next
  fix out
  assume repo: "\<forall>p \<in> set (providers opts).
           (\<exists>s. enrich p = qiita_enrich s) \<or> (\<exists>w s. enrich p = zenn_enrich w s)
           \<or> (\<exists>w s. enrich p = note_enrich w s)"
    and run: "runSearch opts order = Inr out"
  have "\<forall>p \<in> set (providers opts). \<forall>items out.
            enrich p items = Resolves out \<longrightarrow> map url out = map url items"
    using repo repository_enrich_urls by blast
  then show "distinct (map url out)" using run by (rule runSearch_distinct)
qed

text \<open>
  The run of the application against the example API, whose page repeats \<open>u1\<close>: three
  items arrive, the pool keeps the first two, and two enriched items are returned.
\<close>

theorem merged_pool_unique_urls_witness:
  "arrivals (example_run 500 None) [0] =
     [found_item 1 0 (example_article ''u1''), found_item 1 1 (example_article ''u2''),
      found_item 1 2 (example_article ''u1'')]
   \<and> discovered (example_run 500 None) [0] =
     [found_item 1 0 (example_article ''u1''), found_item 1 1 (example_article ''u2'')]
   \<and> List.find (\<lambda>y. url y = ''u1'') (arrivals (example_run 500 None) [0]) =
       Some (found_item 1 0 (example_article ''u1''))
   \<and> runSearch (example_run 500 None) [0] =
       Inr [qiita_enrich_item (found_item 1 0 (example_article ''u1'')),
            qiita_enrich_item (found_item 1 1 (example_article ''u2''))]
   \<and> distinct (map url [qiita_enrich_item (found_item 1 0 (example_article ''u1'')),
                         qiita_enrich_item (found_item 1 1 (example_article ''u2''))])"
proof -
  let ?run = "example_run 500 None"
  note inst = merged_pool_unique_urls [of ?run "[0]"]
  have na: "\<not> aborted (signal ?run) (length [0::nat] + 1)"
    by (simp add: example_run_def aborted_def)
  have arr: "arrivals ?run [0] =
     [found_item 1 0 (example_article ''u1''), found_item 1 1 (example_article ''u2''),
      found_item 1 2 (example_article ''u1'')]"
    by (simp add: example_defs engine_defs)
  have disc: "discovered ?run [0] =
     [found_item 1 0 (example_article ''u1''), found_item 1 1 (example_article ''u2'')]"
    using inst [THEN conjunct2, THEN conjunct1] na
    by (simp add: arr found_item_def example_article_def)
  have "found_item 1 0 (example_article ''u1'') \<in> set (discovered ?run [0])"
    by (simp add: disc)
  then have "List.find (\<lambda>y. url y = url (found_item 1 0 (example_article ''u1'')))
               (arrivals ?run [0]) = Some (found_item 1 0 (example_article ''u1''))"
    using inst [THEN conjunct2, THEN conjunct1] na by blast
  then have fnd: "List.find (\<lambda>y. url y = ''u1'') (arrivals ?run [0]) =
       Some (found_item 1 0 (example_article ''u1''))"
    by (simp add: found_item_def example_article_def)
  have contract: "\<forall>p \<in> set (providers ?run).
           (\<exists>s. enrich p = qiita_enrich s) \<or> (\<exists>w s. enrich p = zenn_enrich w s)
           \<or> (\<exists>w s. enrich p = note_enrich w s)"
    by (auto simp: example_run_def qiitaProvider_def)
  have run: "runSearch ?run [0] =
       Inr [qiita_enrich_item (found_item 1 0 (example_article ''u1'')),
            qiita_enrich_item (found_item 1 1 (example_article ''u2''))]"
    by (simp add: example_defs engine_defs)
  have "distinct (map url [qiita_enrich_item (found_item 1 0 (example_article ''u1'')),
                         qiita_enrich_item (found_item 1 1 (example_article ''u2''))])"
    using inst [THEN conjunct2, THEN conjunct2, THEN conjunct2] contract run by blast
  with arr disc fnd run show ?thesis by blast
qed

subsection \<open>The size cap\<close>

text \<open>
  Claim C2. For every run (any tokens, providers, settling order and outcomes of
  discovery and enrichment) with a requested maximum \<open>maxTotal\<close> that is not negative,
  a collection returned by \<open>runSearch\<close> has at most \<open>maxTotal\<close> items.
\<close>

theorem size_cap:
  "0 \<le> maxTotal opts \<Longrightarrow> runSearch opts order = Inr out \<Longrightarrow> int (length out) \<le> maxTotal opts"
  using runSearch_Inr[of opts order out] by (auto simp: slice0_length)

text \<open>With \<open>maxTotal = 1\<close> the example run returns one of its two items.\<close>

theorem size_cap_witness:
  "(0::int) \<le> maxTotal (example_run 1 None)
   \<and> runSearch (example_run 1 None) [0] = Inr [qiita_enrich_item (found_item 1 0 (example_article ''u1''))]
   \<and> int (length [qiita_enrich_item (found_item 1 0 (example_article ''u1''))]) \<le> maxTotal (example_run 1 None)"
proof -
  have m: "(0::int) \<le> maxTotal (example_run 1 None)" by (simp add: example_run_def)
  have run: "runSearch (example_run 1 None) [0] =
      Inr [qiita_enrich_item (found_item 1 0 (example_article ''u1''))]"
    by (simp add: example_defs engine_defs)
  from size_cap [OF m run] m run show ?thesis by blast
qed

subsection \<open>The empty registry\<close>

lemma discover_loop_no_providers: "discover_loop [] po sig t order (r, st) = (r, st)"
  by (induction order arbitrary: t) auto

text \<open>
  Claim C10. With an empty list of providers and a signal that is not aborted during
  the run, \<open>runSearch\<close> succeeds with the empty collection, for every \<open>maxTotal\<close>; the
  quota is computed with the divisor \<open>max 1 0 = 1\<close> and is \<open>maxTotal\<close> itself.
\<close>

theorem empty_registry:
  "\<not> aborted sig (length order + 2) \<Longrightarrow>
   runSearch \<lparr> tokens = ts, providers = [], maxTotal = m, signal = sig \<rparr> order = Inr []
   \<and> perProviderTarget m [] = m"
proof -
  assume na: "\<not> aborted sig (length order + 2)"
  let ?opts = "\<lparr> tokens = ts, providers = [], maxTotal = m, signal = sig \<rparr>"
  have na0: "\<not> aborted sig 0" and na1: "\<not> aborted sig (length order + 1)"
    using na aborted_mono[of sig 0 "length order + 2"]
      aborted_mono[of sig "length order + 1" "length order + 2"] by auto
  have calls: "first_throw (searchCalls ?opts) = None"
    by (simp add: searchCalls_def)
  have rej: "searchRejection ?opts order = None"
    by (simp add: searchRejection_def discover_loop_no_providers)
  have groups: "itemsToEnrichByProvider ?opts order = []"
    by (simp add: itemsToEnrichByProvider_def discovered_def discover_loop_no_providers)
  have ecalls: "first_throw (enrichCalls ?opts order) = None"
    by (simp add: enrichCalls_def groups)
  have enr: "enriched ?opts order = Inr []"
    by (simp add: enriched_def enrichedChunks_def groups)
  have "runSearch ?opts order = Inr []"
    unfolding runSearch_def using na na0 na1 by (simp add: calls rej ecalls enr slice0_def)
  moreover have "perProviderTarget m [] = m"
    by (simp add: perProviderTarget_def ceil_div_def)
  ultimately show ?thesis by blast
qed

text \<open>The run without providers and without cancellation.\<close>

theorem empty_registry_witness:
  "\<not> aborted None (length ([]::nat list) + 2)
   \<and> runSearch \<lparr> tokens = [[97]], providers = [], maxTotal = 500, signal = None \<rparr> [] = Inr []
   \<and> perProviderTarget 500 [] = 500"
proof -
  have na: "\<not> aborted None (length ([]::nat list) + 2)" by (simp add: aborted_def)
  from empty_registry [OF na, of "[[97]]" 500] na show ?thesis by blast
qed

subsection \<open>Enrichment degradation\<close>

lemma slice0_append:
  "int (length xs) \<le> n \<Longrightarrow> slice0 n (xs @ ys) = xs @ slice0 (n - int (length xs)) ys"
  by (auto simp: slice0_def nat_diff_distrib)

lemma first_throw_None: "first_throw calls = None \<Longrightarrow> Throws e \<notin> set calls"
  by (induction calls rule: first_throw.induct) auto

lemma runSearch_no_throw:
  assumes "runSearch opts order = Inr out"
  shows "first_throw (enrichCalls opts order) = None"
  using assms by (auto simp: runSearch_def split: if_splits option.splits sum.splits)

lemma list_all2_split:
  assumes "list_all2 P (gs1 @ g # gs2) chunks"
  shows "\<exists>c1 c c2. chunks = c1 @ c # c2 \<and> list_all2 P gs1 c1 \<and> P g c \<and> list_all2 P gs2 c2"
  using assms by (auto simp: list_all2_append1 list_all2_Cons1)

text \<open>
  Claim C5, amended. In a run that returns, when the \<open>enrich\<close> of a provider fails on
  its group of items for a reason other than cancellation, the group stands unmodified
  and in its order in the concatenation \<open>enriched\<close> of the groups' results, of which
  the run returns the first \<open>maxTotal\<close> items. So the items of the group are returned
  unmodified when they lie within the first \<open>maxTotal\<close> positions of the concatenation;
  beyond that, the size cap drops them.
\<close>

theorem enrichment_degradation:
  "g \<in> set (itemsToEnrichByProvider opts order)
   \<and> (enrich (providers opts ! fst g) (snd g) = Rejects e
        \<or> enrich (providers opts ! fst g) (snd g) = Throws e)
   \<and> e \<noteq> AbortError
   \<and> runSearch opts order = Inr out \<longrightarrow>
     (\<exists>pre post.
        enriched opts order = Inr (pre @ snd g @ post)
        \<and> out = slice0 (maxTotal opts) (pre @ snd g @ post)
        \<and> (int (length pre + length (snd g)) \<le> maxTotal opts \<longrightarrow>
             (\<exists>post'. out = pre @ snd g @ post')))"
proof (intro impI, elim conjE)
  let ?call = "enrich (providers opts ! fst g) (snd g)"
  assume g: "g \<in> set (itemsToEnrichByProvider opts order)"
    and fail: "?call = Rejects e \<or> ?call = Throws e"
    and run: "runSearch opts order = Inr out"
  from g obtain gs1 gs2 where split: "itemsToEnrichByProvider opts order = gs1 @ g # gs2"
    by (auto dest: split_list)
  from runSearch_Inr[OF run] obtain items where
    items: "enriched opts order = Inr items" and out: "out = slice0 (maxTotal opts) items"
    by blast
  let ?P = "\<lambda>g c. enrich_group (snd g) (enrich (providers opts ! fst g) (snd g)) = Inr c"
  from enriched_chunks[OF items] obtain chunks where
    chunks: "items = concat chunks" "list_all2 ?P (gs1 @ g # gs2) chunks"
    unfolding split by blast
  from list_all2_split[OF chunks(2)] obtain c1 c c2 where
    c: "chunks = c1 @ c # c2" "?P g c"
    by blast
  have "?call \<in> set (enrichCalls opts order)"
    using g by (auto simp: enrichCalls_def)
  then have "?call \<noteq> Throws e"
    using first_throw_None[OF runSearch_no_throw[OF run], of e] by auto
  with fail have rej: "?call = Rejects e" by simp
  have chunk: "c = snd g"
    using c(2) by (auto simp: rej enrich_group_def split: option.splits)
  let ?pre = "concat c1" and ?post = "concat c2"
  have enr: "enriched opts order = Inr (?pre @ snd g @ ?post)"
    by (simp add: items chunks(1) c(1) chunk)
  have out': "out = slice0 (maxTotal opts) (?pre @ snd g @ ?post)"
    using out by (simp add: chunks(1) c(1) chunk)
  have "\<exists>post'. out = ?pre @ snd g @ post'"
    if fits: "int (length ?pre + length (snd g)) \<le> maxTotal opts"
  proof -
    have "slice0 (maxTotal opts) ((?pre @ snd g) @ ?post)
            = (?pre @ snd g) @ slice0 (maxTotal opts - int (length (?pre @ snd g))) ?post"
      by (rule slice0_append) (use fits in simp)
    then show ?thesis using out' by auto
  qed
  with enr out' show "\<exists>pre post.
        enriched opts order = Inr (pre @ snd g @ post)
        \<and> out = slice0 (maxTotal opts) (pre @ snd g @ post)
        \<and> (int (length pre + length (snd g)) \<le> maxTotal opts \<longrightarrow>
             (\<exists>post'. out = pre @ snd g @ post'))"
    by blast
qed

text \<open>
  With \<open>maxTotal = 2\<close> the item of \<open>provider_b\<close>, whose enrichment fails, is returned
  as it was found.
\<close>

theorem enrichment_degradation_witness:
  "(1, [example_item ''u2'' ''b'']) \<in> set (itemsToEnrichByProvider (degradation_run 2) [0, 1])
   \<and> enrich (providers (degradation_run 2) ! 1) [example_item ''u2'' ''b''] = Rejects (OtherError ''enrich failed'')
   \<and> runSearch (degradation_run 2) [0, 1] =
        Inr [example_item ''u1'' ''a'' \<lparr> likeCount := Some (Num 1) \<rparr>, example_item ''u2'' ''b'']
   \<and> enriched (degradation_run 2) [0, 1] =
        Inr [example_item ''u1'' ''a'' \<lparr> likeCount := Some (Num 1) \<rparr>, example_item ''u2'' ''b'']
   \<and> example_item ''u2'' ''b'' \<in> set [example_item ''u1'' ''a'' \<lparr> likeCount := Some (Num 1) \<rparr>, example_item ''u2'' ''b'']"
proof -
  let ?opts = "degradation_run 2"
  let ?g = "(1::nat, [example_item ''u2'' ''b''])"
  let ?out = "[example_item ''u1'' ''a'' \<lparr> likeCount := Some (Num 1) \<rparr>, example_item ''u2'' ''b'']"
  have g: "?g \<in> set (itemsToEnrichByProvider ?opts [0, 1])"
    by (simp add: degradation_run_def engine_defs provider_a_def provider_b_def example_item_def
        aborted_def search_options_def)
  have fail: "enrich (providers ?opts ! 1) [example_item ''u2'' ''b''] = Rejects (OtherError ''enrich failed'')"
    by (simp add: degradation_run_def provider_b_def)
  have run: "runSearch ?opts [0, 1] = Inr ?out"
    by (simp add: degradation_run_def engine_defs provider_a_def provider_b_def example_item_def
        aborted_def slice0_def search_options_def)
  have enr: "enriched ?opts [0, 1] = Inr ?out"
    by (simp add: degradation_run_def engine_defs provider_a_def provider_b_def example_item_def
        aborted_def search_options_def)
  have pre: "?g \<in> set (itemsToEnrichByProvider ?opts [0, 1])
     \<and> (enrich (providers ?opts ! fst ?g) (snd ?g) = Rejects (OtherError ''enrich failed'')
         \<or> enrich (providers ?opts ! fst ?g) (snd ?g) = Throws (OtherError ''enrich failed''))
     \<and> OtherError ''enrich failed'' \<noteq> AbortError
     \<and> runSearch ?opts [0, 1] = Inr ?out"
    using g fail run by simp
  from enrichment_degradation [of ?g ?opts "[0, 1]" "OtherError ''enrich failed''" ?out, rule_format, OF pre]
  obtain pre post where "enriched ?opts [0, 1] = Inr (pre @ snd ?g @ post)"
    by blast
  then have "set (snd ?g) \<subseteq> set ?out" unfolding enr by auto
  then have "example_item ''u2'' ''b'' \<in> set ?out" by simp
  with g fail run enr show ?thesis by blast
qed

text \<open>
  The claim as stated fails with \<open>maxTotal = 1\<close>: each of the two providers is asked
  for one item and finds one, the enrichment of the second group fails, and the run
  returns the first item only. The item whose enrichment failed is dropped.
\<close>

theorem enrichment_degradation_counterexample:
  "(1, [example_item ''u2'' ''b'']) \<in> set (itemsToEnrichByProvider (degradation_run 1) [0, 1])
   \<and> enrich (providers (degradation_run 1) ! 1) [example_item ''u2'' ''b''] = Rejects (OtherError ''enrich failed'')
   \<and> runSearch (degradation_run 1) [0, 1] = Inr [example_item ''u1'' ''a'' \<lparr> likeCount := Some (Num 1) \<rparr>]
   \<and> example_item ''u2'' ''b'' \<notin> set [example_item ''u1'' ''a'' \<lparr> likeCount := Some (Num 1) \<rparr>]"
  by (simp add: degradation_run_def engine_defs provider_a_def provider_b_def example_item_def
      aborted_def slice0_def search_options_def)

subsection \<open>Failures that cross the boundary of the engine\<close>

lemma first_throw_Some: "first_throw calls = Some e \<Longrightarrow> Throws e \<in> set calls"
  by (induction calls rule: first_throw.induct) auto

lemma promise_all_Inl: "promise_all rs = Inl e \<Longrightarrow> Inl e \<in> set rs"
proof (induction rs)
  case Nil
  then show ?case by simp
next
  case (Cons r rs)
  then show ?case by (cases r) (auto split: sum.splits)
qed

lemma catch_handler_Some: "catch_handler err = Some e \<Longrightarrow> err = Nullish \<and> e = OtherError ''TypeError''"
  by (cases err) (simp_all add: catch_handler_def)

lemma discover_loop_rejection:
  "fst (discover_loop ps po sig t order (r, st)) = Some e \<Longrightarrow>
   r = Some e \<or> (e = OtherError ''TypeError''
                  \<and> (\<exists>i \<in> set order. i < length ps \<and> search (ps ! i) po = Rejects Nullish))"
proof (induction order arbitrary: t r st)
  case Nil
  then show ?case by simp
next
  case (Cons i order)
  show ?case
  proof (cases "i < length ps")
    case False
    with Cons.prems have "fst (discover_loop ps po sig (Suc t) order (r, st)) = Some e" by simp
    from Cons.IH[OF this] show ?thesis by auto
  next
    case True
    show ?thesis
    proof (cases "on_settled (aborted sig t) (search (ps ! i) po) st")
      case (Inr st')
      with True Cons.prems have "fst (discover_loop ps po sig (Suc t) order (r, st')) = Some e" by simp
      from Cons.IH[OF this] show ?thesis by auto
    next
      case (Inl e')
      then have rej: "search (ps ! i) po = Rejects Nullish" "e' = OtherError ''TypeError''"
        by (auto simp: on_settled_def split: outcome.splits option.splits dest: catch_handler_Some)
      from Inl True Cons.prems
      have "fst (discover_loop ps po sig (Suc t) order
                  ((case r of None \<Rightarrow> Some e' | Some e'' \<Rightarrow> Some e''), st)) = Some e"
        by simp
      from Cons.IH[OF this] show ?thesis using rej True by (auto split: option.splits)
    qed
  qed
qed

text \<open>
  The failures of \<open>runSearch\<close>: the cancellation, the exception of a provider's method
  that throws when it is called, and the \<^verbatim>\<open>TypeError\<close> of a handler given the rejection
  of a provider's promise with \<^verbatim>\<open>null\<close> or \<^verbatim>\<open>undefined\<close>. A rejection with an error
  object does not fail the run.
\<close>

lemma runSearch_stages:
  assumes "runSearch opts order = Inl e"
  shows "e = AbortError \<or> first_throw (searchCalls opts) = Some e
      \<or> searchRejection opts order = Some e \<or> first_throw (enrichCalls opts order) = Some e
      \<or> enriched opts order = Inl e"
proof (cases "aborted (signal opts) 0")
  case True
  with assms show ?thesis by (simp add: runSearch_def)
next
  case na0: False
  show ?thesis
  proof (cases "first_throw (searchCalls opts)")
    case (Some e')
    with assms na0 show ?thesis by (simp add: runSearch_def)
  next
    case st: None
    show ?thesis
    proof (cases "searchRejection opts order")
      case (Some e')
      with assms na0 st show ?thesis by (simp add: runSearch_def)
    next
      case sr: None
      show ?thesis
      proof (cases "aborted (signal opts) (length order + 1)")
        case True
        with assms na0 st sr show ?thesis by (simp add: runSearch_def)
      next
        case na1: False
        show ?thesis
        proof (cases "first_throw (enrichCalls opts order)")
          case (Some e')
          with assms na0 st sr na1 show ?thesis by (simp add: runSearch_def)
        next
          case et: None
          show ?thesis
          proof (cases "enriched opts order")
            case (Inl e')
            with assms na0 st sr na1 et show ?thesis by (simp add: runSearch_def)
          next
            case (Inr items)
            with assms na0 st sr na1 et show ?thesis
              by (simp add: runSearch_def split: if_splits)
          qed
        qed
      qed
    qed
  qed
qed

lemma runSearch_failures:
  assumes "runSearch opts order = Inl e"
  shows "e = AbortError
       \<or> Throws e \<in> set (searchCalls opts) \<or> Throws e \<in> set (enrichCalls opts order)
       \<or> (e = OtherError ''TypeError''
           \<and> (Rejects Nullish \<in> set (searchCalls opts) \<or> Rejects Nullish \<in> set (enrichCalls opts order)))"
proof -
  from runSearch_stages[OF assms] consider (abort) "e = AbortError"
    | (search_throw) "first_throw (searchCalls opts) = Some e"
    | (search_reject) "searchRejection opts order = Some e"
    | (enrich_throw) "first_throw (enrichCalls opts order) = Some e"
    | (enrich_reject) "enriched opts order = Inl e"
    by blast
  then show ?thesis
  proof cases
    case abort
    then show ?thesis by simp
  next
    case search_throw
    then show ?thesis using first_throw_Some by blast
  next
    case search_reject
    then have "e = OtherError ''TypeError''
       \<and> (\<exists>i \<in> set order. i < length (providers opts)
             \<and> search (providers opts ! i) (search_options opts) = Rejects Nullish)"
      unfolding searchRejection_def using discover_loop_rejection by fastforce
    then obtain i where "e = OtherError ''TypeError''" "i < length (providers opts)"
      "search (providers opts ! i) (search_options opts) = Rejects Nullish"
      by blast
    then have "e = OtherError ''TypeError''" "Rejects Nullish \<in> set (searchCalls opts)"
      unfolding searchCalls_def by (simp_all add: image_iff) (metis nth_mem)
    then show ?thesis by simp
  next
    case enrich_throw
    then show ?thesis using first_throw_Some by blast
  next
    case enrich_reject
    then have "enrichedChunks opts order = Inl e"
      by (auto simp: enriched_def split: sum.splits)
    then have "Inl e \<in> set (map (\<lambda>g. enrich_group (snd g) (enrich (providers opts ! fst g) (snd g)))
                              (itemsToEnrichByProvider opts order))"
      unfolding enrichedChunks_def by (rule promise_all_Inl)
    then obtain g where g: "g \<in> set (itemsToEnrichByProvider opts order)"
      "enrich_group (snd g) (enrich (providers opts ! fst g) (snd g)) = Inl e"
      by auto
    then have "enrich (providers opts ! fst g) (snd g) = Rejects Nullish \<and> e = OtherError ''TypeError''"
      by (auto simp: enrich_group_def split: outcome.splits option.splits dest: catch_handler_Some)
    with g(1) have "e = OtherError ''TypeError''" "Rejects Nullish \<in> set (enrichCalls opts order)"
      unfolding enrichCalls_def by (simp_all add: image_iff) metis
    then show ?thesis by simp
  qed
qed

text \<open>
  When the signal is aborted by the check that follows the enrichment, the run returns
  no collection.
\<close>

lemma runSearch_Inr_clear:
  "runSearch opts order = Inr out \<Longrightarrow> \<not> aborted (signal opts) (length order + 2)"
  by (auto simp: runSearch_def split: if_splits option.splits sum.splits)

lemma runSearch_aborted_fails:
  "aborted (signal opts) (length order + 2) \<Longrightarrow> \<exists>e. runSearch opts order = Inl e"
  using runSearch_Inr_clear[of opts order] by (cases "runSearch opts order") auto

text \<open>
  Claim C3 does not hold of the code. The run over \<open>provider_rejecting\<close>, which finds
  one item and whose \<open>enrich\<close> returns a promise rejected with \<^verbatim>\<open>undefined\<close>: the
  handler that \<open>runSearch\<close> attaches to the promise reads \<^verbatim>\<open>err.name\<close> and throws a
  \<^verbatim>\<open>TypeError\<close>, with which \<^verbatim>\<open>Promise.all\<close> and \<open>runSearch\<close> reject. This is so without
  cancellation, and also when the signal is aborted during the enrichment (clear at the
  check after the discovery, aborted at the check after the enrichment): the failure
  that crosses the boundary of the engine is not the cancellation.
\<close>

theorem enrich_rejection_crosses_boundary:
  "runSearch \<lparr> tokens = [[97]], providers = [provider_rejecting], maxTotal = 10,
               signal = None \<rparr> [0] = Inl (OtherError ''TypeError'')
   \<and> discovered \<lparr> tokens = [[97]], providers = [provider_rejecting], maxTotal = 10,
                  signal = Some 3 \<rparr> [0] = [example_item ''u4'' ''d'']
   \<and> aborted (Some 3) (length [0::nat] + 2)
   \<and> runSearch \<lparr> tokens = [[97]], providers = [provider_rejecting], maxTotal = 10,
                 signal = Some 3 \<rparr> [0] = Inl (OtherError ''TypeError'')"
  by (simp add: engine_defs provider_rejecting_def example_item_def aborted_def slice0_def
      search_options_def)

text \<open>
  Claim C4 does not hold of the code. The run over \<open>provider_throwing\<close>, whose \<open>search\<close>
  throws when it is called, and \<open>provider_a\<close>: the exception leaves
  \<^verbatim>\<open>providers.map\<close> before a handler is attached to anything, and \<open>runSearch\<close> rejects
  with it; the item of \<open>provider_a\<close>, which the run over \<open>provider_a\<close> alone returns, is
  lost with the run.
\<close>

theorem search_throw_fails_run:
  "search provider_throwing (search_options \<lparr> tokens = [[97]],
       providers = [provider_throwing, provider_a], maxTotal = 10, signal = None \<rparr>)
     = Throws (OtherError ''Error: boom'')
   \<and> runSearch \<lparr> tokens = [[97]], providers = [provider_throwing, provider_a], maxTotal = 10,
                 signal = None \<rparr> [] = Inl (OtherError ''Error: boom'')
   \<and> runSearch \<lparr> tokens = [[97]], providers = [provider_a], maxTotal = 10,
                 signal = None \<rparr> [0] = Inr [example_item ''u1'' ''a'' \<lparr> likeCount := Some (Num 1) \<rparr>]"
  by (simp add: engine_defs provider_throwing_def provider_a_def example_item_def aborted_def
      slice0_def search_options_def)

section \<open>Properties of enrichment\<close>

subsection \<open>The frame of enrichment\<close>

text \<open>
  Claim C7. Whenever the \<open>enrich\<close> of the Qiita, the Zenn or the Note provider
  completes, its result has the length and the order of its input, and each output item
  carries every field of the input item at its position; they differ in \<open>publishedAt\<close>,
  \<open>likeCount\<close> and \<open>viewCount\<close> at most. Without cancellation each of the three does
  complete.
\<close>

theorem enrich_frame:
  "(\<forall>out. qiita_enrich sig items = Resolves out \<longrightarrow> list_all2 enriches items out)
   \<and> (\<forall>out. zenn_enrich zenn_web sig items = Resolves out \<longrightarrow> list_all2 enriches items out)
   \<and> (\<forall>out. note_enrich note_web sig items = Resolves out \<longrightarrow> list_all2 enriches items out)
   \<and> qiita_enrich None items = Resolves (map qiita_enrich_item items)
   \<and> (\<exists>out. zenn_enrich zenn_web None items = Resolves out)
   \<and> (\<exists>out. note_enrich note_web None items = Resolves out)"
proof (intro conjI allI impI)
  fix out assume "qiita_enrich sig items = Resolves out"
  then show "list_all2 enriches items out"
    by (rule qiita_enrich_frame)
next
  fix out assume "zenn_enrich zenn_web sig items = Resolves out"
  then have "\<exists>new. out = [] @ new \<and> list_all2 enriches items new"
    unfolding zenn_enrich_def by (rule enrich_loop_frame[OF enriches_zenn])
  then show "list_all2 enriches items out" by simp
next
  fix out assume "note_enrich note_web sig items = Resolves out"
  then have "\<exists>new. out = [] @ new \<and> list_all2 enriches items new"
    unfolding note_enrich_def by (rule enrich_loop_frame[OF enriches_note])
  then show "list_all2 enriches items out" by simp
next
  show "qiita_enrich None items = Resolves (map qiita_enrich_item items)"
    by (simp add: qiita_enrich_def aborted_def qiita_enrich_map_completes)
  show "\<exists>out. zenn_enrich zenn_web None items = Resolves out"
    unfolding zenn_enrich_def by (rule enrich_loop_completes)
  show "\<exists>out. note_enrich note_web None items = Resolves out"
    unfolding note_enrich_def by (rule enrich_loop_completes)
qed

lemmas enrich_defs = enrichZennItem_def enrichNoteItem_def zenn_json_ld_def zenn_enrich_def
  note_enrich_def parseInt_def to_double_def is_space_def is_digit_def is_count_char_def
  match_here_def truthy_num_def truthy_str_def or_else_def aborted_def

text \<open>
  The Zenn enrichment of two items, of which the page of the second cannot be fetched,
  and the Qiita enrichment of the first article of the example API.
\<close>

theorem enrich_frame_witness:
  "zenn_enrich example_zenn_web None [example_item ''z1'' ''zenn'', example_item ''z2'' ''zenn'']
     = Resolves [example_item ''z1'' ''zenn''
              \<lparr> publishedAt := Some ''2024-01-01T00:00:00Z'', likeCount := Some (Num 42) \<rparr>,
            example_item ''z2'' ''zenn'']
   \<and> list_all2 enriches [example_item ''z1'' ''zenn'', example_item ''z2'' ''zenn'']
        [example_item ''z1'' ''zenn''
              \<lparr> publishedAt := Some ''2024-01-01T00:00:00Z'', likeCount := Some (Num 42) \<rparr>,
            example_item ''z2'' ''zenn'']
   \<and> qiita_enrich None [found_item 1 0 (example_article ''u1'')]
     = Resolves [found_item 1 0 (example_article ''u1'')
              \<lparr> publishedAt := Some ''2024-01-01T00:00:00Z'', likeCount := Some (Num 42) \<rparr>]"
proof -
  let ?items = "[example_item ''z1'' ''zenn'', example_item ''z2'' ''zenn'']"
  let ?out = "[example_item ''z1'' ''zenn''
              \<lparr> publishedAt := Some ''2024-01-01T00:00:00Z'', likeCount := Some (Num 42) \<rparr>,
            example_item ''z2'' ''zenn'']"
  have z: "zenn_enrich example_zenn_web None ?items = Resolves ?out"
    by (simp add: enrich_defs example_zenn_web_def example_zenn_doc_def example_item_def)
  have q: "qiita_enrich None [found_item 1 0 (example_article ''u1'')]
     = Resolves [found_item 1 0 (example_article ''u1'')
              \<lparr> publishedAt := Some ''2024-01-01T00:00:00Z'', likeCount := Some (Num 42) \<rparr>]"
    using enrich_frame [of None "[found_item 1 0 (example_article ''u1'')]", THEN conjunct2,
        THEN conjunct2, THEN conjunct2, THEN conjunct1]
    by (simp add: qiita_enrich_item_def found_item_def example_article_def)
  have "list_all2 enriches ?items ?out"
    using enrich_frame [of None ?items example_zenn_web, THEN conjunct2, THEN conjunct1] z by blast
  with z q show ?thesis by (intro conjI)
qed

subsection \<open>The like count\<close>

text \<open>
  \<^verbatim>\<open>parseInt\<close> on some texts: the digits of \<open>2 ^ 53 + 1\<close> give the Number \<open>2 ^ 53\<close>,
  a sign is read, and a text without a leading digit gives \<open>NaN\<close>. The Number value of
  \<open>10 ^ 309\<close> is \<^verbatim>\<open>Infinity\<close>.
\<close>

lemma bit_length_numeral:
  "bit_length 0 = 0"
  "bit_length (Suc 0) = Suc 0"
  "bit_length (numeral k) = Suc (bit_length (numeral k div 2))"
  by (subst bit_length.simps, simp add: bit_length.simps[of 0])+

lemma parseInt_examples:
  "parseInt [57, 48, 48, 55, 49, 57, 57, 50, 53, 52, 55, 52, 48, 57, 57, 51] = Num 9007199254740992
   \<and> parseInt [45, 51] = Num (- 3)
   \<and> parseInt [76, 105, 107, 101] = NaN"
  by (simp add: parseInt_def to_double_def negate_def is_space_def is_digit_def bit_length_numeral Let_def)

lemma to_double_overflows: "to_double (10 ^ 309) = PosInfinity"
  by (simp add: to_double_def bit_length_numeral Let_def)

text \<open>
  Claim C8 does not hold of the code. \<open>enrichZennItem\<close> and \<open>enrichNoteItem\<close> store what
  \<^verbatim>\<open>parseInt\<close> returns without looking at it. On a Zenn page without JSON-LD whose like
  button reads \<^verbatim>\<open>Like\<close>, and on a Note page whose text has a comma after the marker,
  \<^verbatim>\<open>parseInt\<close> finds no digit: the like count of the enriched item is \<open>NaN\<close>, which is
  neither absent nor an integer. On the example page, whose JSON-LD block gives the
  count \<^verbatim>\<open>42\<close>, it is 42.
\<close>

theorem like_count_not_a_number:
  "likeCount (enrichZennItem (Document zenn_doc_label) (example_item ''z1'' ''zenn'')) = Some NaN
   \<and> likeCount (enrichNoteItem (Document note_doc_comma) (example_item ''n1'' ''note'')) = Some NaN
   \<and> \<not> valid_count (Some NaN)
   \<and> likeCount (enrichZennItem (Document example_zenn_doc) (example_item ''z1'' ''zenn'')) = Some (Num 42)
   \<and> valid_count (Some (Num 42))"
  by (simp add: enrich_defs zenn_doc_label_def note_doc_comma_def example_zenn_doc_def
      example_item_def valid_count_def)

section \<open>Properties of the Qiita provider\<close>

subsection \<open>Pagination\<close>

lemma push_page_take:
  "push_page maxD pg idx data found =
     found @ take (nat (maxD - int (length found)))
               (map (\<lambda>(i, r). found_item pg i r) (enumerate idx data))"
proof (induction data arbitrary: idx found)
  case Nil
  show ?case by simp
next
  case (Cons r rs)
  let ?rest = "map (\<lambda>(i, r). found_item pg i r) (enumerate (Suc idx) rs)"
  show ?case
  proof (cases "int (length found) < maxD")
    case True
    have n: "nat (maxD - int (length (found @ [found_item pg idx r]))) = nat (maxD - int (length found)) - 1"
      by simp
    have "push_page maxD pg idx (r # rs) found
            = (found @ [found_item pg idx r]) @ take (nat (maxD - int (length found)) - 1) ?rest"
      using True by (simp only: push_page.simps if_True Cons.IH n)
    also have "\<dots> = found @ take (nat (maxD - int (length found))) (found_item pg idx r # ?rest)"
      using True by (simp add: take_Cons')
    finally show ?thesis by simp
  next
    case False
    then have "nat (maxD - int (length found)) = 0" by simp
    with False show ?thesis by (simp add: Cons.IH)
  qed
qed

lemma collected_step: "1 \<le> pg \<Longrightarrow> collected api sig opts pg = collected api sig opts (pg - 1) @ page_items api sig opts pg"
  by (simp add: collected_def upto_rec2)

lemma collected_0: "collected api sig opts 0 = []"
  by (simp add: collected_def)

lemma requests_step: "1 \<le> pg \<Longrightarrow> map (page_request opts) [1..pg] = map (page_request opts) [1..pg - 1] @ [page_request opts pg]"
  by (simp add: upto_rec2)

lemma take_full: "int (length (take (nat n) xs)) < n \<Longrightarrow> take (nat n) xs = xs"
  by (cases "length xs \<le> nat n") (auto split: if_splits)

lemma take_reached: "n \<le> int (length (take (nat n) xs)) \<Longrightarrow> n \<le> int (length xs)"
  by (cases "length xs \<le> nat n") (auto split: if_splits)

lemma requested_ok_extend:
  assumes "requested_ok api sig opts maxPages (pg - 1)"
    and "pg - 1 = 0 \<or> page_data api sig opts (pg - 1) \<noteq> []"
    and "pg \<le> maxPages" and "int (length (collected api sig opts (pg - 1))) < maxDiscover opts"
    and "\<not> aborted sig (3 * nat (pg - 1))"
  shows "requested_ok api sig opts maxPages pg"
  unfolding requested_ok_def
proof
  fix p assume p: "p \<in> {1..pg}"
  show "p \<le> maxPages \<and> int (length (collected api sig opts (p - 1))) < maxDiscover opts
          \<and> \<not> aborted sig (3 * nat (p - 1))
          \<and> (p < pg \<longrightarrow> page_data api sig opts p \<noteq> [])"
  proof (cases "p = pg")
    case True
    with assms(3,4,5) show ?thesis by simp
  next
    case False
    with p have p': "p \<in> {1..pg - 1}" by auto
    with assms(1) have a: "p \<le> maxPages" "int (length (collected api sig opts (p - 1))) < maxDiscover opts"
      "\<not> aborted sig (3 * nat (p - 1))"
      "p < pg - 1 \<longrightarrow> page_data api sig opts p \<noteq> []"
      by (auto simp: requested_ok_def)
    have "page_data api sig opts p \<noteq> []"
    proof (cases "p < pg - 1")
      case True with a(4) show ?thesis by simp
    next
      case False
      with p' have "p = pg - 1" by auto
      with assms(2) p' show ?thesis by auto
    qed
    with a show ?thesis by simp
  qed
qed

text \<open>
  The invariant of the loop. Entered at page \<open>pg\<close> with the pages before it requested
  and collected, the loop ends with the pages 1 to \<open>k\<close> requested and collected. Either
  it requests nothing more, its condition being false at \<open>pg\<close>; or the last page it
  requests is one at which the search stops.
\<close>

lemma qiita_loop_spec:
  assumes "1 \<le> pg"
    and "reqs = map (page_request opts) [1..pg - 1]"
    and "foundItems = take (nat (maxDiscover opts)) (collected api sig opts (pg - 1))"
    and "requested_ok api sig opts maxPages (pg - 1)"
    and "pg - 1 = 0 \<or> page_data api sig opts (pg - 1) \<noteq> []"
  shows "\<exists>k. pg - 1 \<le> k
          \<and> qiita_loop api sig opts maxPages foundItems pg reqs =
              (take (nat (maxDiscover opts)) (collected api sig opts k), map (page_request opts) [1..k])
          \<and> requested_ok api sig opts maxPages k
          \<and> (k = pg - 1 \<longrightarrow>
                \<not> (int (length foundItems) < maxDiscover opts \<and> pg \<le> maxPages
                    \<and> \<not> aborted sig (3 * nat (pg - 1))))
          \<and> (pg \<le> k \<longrightarrow> stops_at api sig opts maxPages k)"
  using assms
proof (induction api sig opts maxPages foundItems pg reqs rule: qiita_loop.induct)
  case (1 api sig opts maxPages foundItems pg reqs)
  let ?maxD = "maxDiscover opts"
  let ?C = "collected api sig opts"
  note pg = \<open>1 \<le> pg\<close>
  note reqs = \<open>reqs = map (page_request opts) [1..pg - 1]\<close>
  note found = \<open>foundItems = take (nat ?maxD) (?C (pg - 1))\<close>
  note ok = \<open>requested_ok api sig opts maxPages (pg - 1)\<close>
  note prev = \<open>pg - 1 = 0 \<or> page_data api sig opts (pg - 1) \<noteq> []\<close>
  show ?case
  proof (cases "int (length foundItems) < ?maxD \<and> pg \<le> maxPages \<and> \<not> aborted sig (3 * nat (pg - 1))")
    case False
    then have "qiita_loop api sig opts maxPages foundItems pg reqs = (foundItems, reqs)"
      by (subst qiita_loop.simps) auto
    with reqs found ok False show ?thesis by (intro exI[of _ "pg - 1"]) simp
  next
    case cond: True
    then have lt: "int (length foundItems) < ?maxD" and cap: "pg \<le> maxPages"
      and na: "\<not> aborted sig (3 * nat (pg - 1))" by simp_all
    have full: "foundItems = ?C (pg - 1)"
      using lt found take_full[of "?maxD" "?C (pg - 1)"] by simp
    have okpg: "requested_ok api sig opts maxPages pg"
      using requested_ok_extend[OF ok prev cap _ na] lt full by simp
    let ?reqs' = "reqs @ [page_request opts pg]"
    have reqs': "?reqs' = map (page_request opts) [1..pg]"
      using reqs requests_step[OF pg] by simp
    show ?thesis
    proof (cases "page_data api sig opts pg = []")
      case empty: True
      then have "qiita_loop api sig opts maxPages foundItems pg reqs = (foundItems, ?reqs')"
        using cond by (subst qiita_loop.simps) (auto simp: page_data_def Let_def split: api_response.splits)
      moreover have "foundItems = take (nat ?maxD) (?C pg)"
        using found empty by (simp add: collected_step[OF pg] page_items_def)
      moreover have "stops_at api sig opts maxPages pg"
        using empty by (simp add: stops_at_def)
      ultimately show ?thesis using reqs' okpg by (intro exI[of _ pg]) simp
    next
      case nonempty: False
      then obtain data where data: "fetch_page api sig opts pg = Items data" "data \<noteq> []"
        "page_data api sig opts pg = data"
        by (auto simp: page_data_def split: api_response.splits)
      let ?found' = "push_page ?maxD pg 0 data foundItems"
      have n: "nat (?maxD - int (length (?C (pg - 1)))) = nat ?maxD - length (?C (pg - 1))"
        by (simp add: nat_diff_distrib')
      have found': "?found' = take (nat ?maxD) (?C pg)"
        using full data(3) lt
        by (simp add: push_page_take collected_step[OF pg] page_items_def n)
      show ?thesis
      proof (cases "int (length ?found') < ?maxD \<and> pg + 1 \<le> maxPages \<and> aborted sig (3 * nat (pg - 1) + 2)")
        case True
        then have "qiita_loop api sig opts maxPages foundItems pg reqs = (?found', ?reqs')"
          using cond data by (subst qiita_loop.simps) (simp add: Let_def)
        moreover have "aborted sig (3 * nat pg)"
          using True pg by (auto elim!: aborted_mono)
        then have "stops_at api sig opts maxPages pg" by (simp add: stops_at_def)
        ultimately show ?thesis using found' reqs' okpg by (intro exI[of _ pg]) simp
      next
        case False
        then have unfold: "qiita_loop api sig opts maxPages foundItems pg reqs
            = qiita_loop api sig opts maxPages ?found' (pg + 1) ?reqs'"
          using cond data by (subst qiita_loop.simps) (auto simp: Let_def)
        have "\<exists>k. pg + 1 - 1 \<le> k
          \<and> qiita_loop api sig opts maxPages ?found' (pg + 1) ?reqs' =
              (take (nat ?maxD) (?C k), map (page_request opts) [1..k])
          \<and> requested_ok api sig opts maxPages k
          \<and> (k = pg + 1 - 1 \<longrightarrow>
                \<not> (int (length ?found') < ?maxD \<and> pg + 1 \<le> maxPages
                    \<and> \<not> aborted sig (3 * nat (pg + 1 - 1))))
          \<and> (pg + 1 \<le> k \<longrightarrow> stops_at api sig opts maxPages k)"
        proof (rule "1.IH"[OF cond refl data(1) data(2) refl False])
          show "1 \<le> pg + 1" using pg by simp
          show "?reqs' = map (page_request opts) [1..pg + 1 - 1]" using reqs' by simp
          show "?found' = take (nat ?maxD) (?C (pg + 1 - 1))" using found' by simp
          show "requested_ok api sig opts maxPages (pg + 1 - 1)" using okpg by simp
          show "pg + 1 - 1 = 0 \<or> page_data api sig opts (pg + 1 - 1) \<noteq> []" using nonempty by simp
        qed
        then obtain k where k: "pg \<le> k" "qiita_loop api sig opts maxPages ?found' (pg + 1) ?reqs' =
              (take (nat ?maxD) (?C k), map (page_request opts) [1..k])" "requested_ok api sig opts maxPages k"
          "k = pg \<longrightarrow> \<not> (int (length ?found') < ?maxD \<and> pg + 1 \<le> maxPages \<and> \<not> aborted sig (3 * nat pg))"
          "pg + 1 \<le> k \<longrightarrow> stops_at api sig opts maxPages k"
          by auto
        have "stops_at api sig opts maxPages k"
        proof (cases "k = pg")
          case True
          with k(4) have "?maxD \<le> int (length ?found') \<or> maxPages \<le> pg \<or> aborted sig (3 * nat pg)"
            by auto
          then have "?maxD \<le> int (length (?C pg)) \<or> maxPages \<le> pg \<or> aborted sig (3 * nat pg)"
            unfolding found' using take_reached[of ?maxD "?C pg"] by blast
          then show ?thesis using True by (simp add: stops_at_def)
        next
          case False
          with k(1,5) show ?thesis by simp
        qed
        with unfold k(1,2,3) pg show ?thesis by (intro exI[of _ k]) auto
      qed
    qed
  qed
qed

lemma qiita_run_spec:
  "\<exists>k. 0 \<le> k
     \<and> qiita_run api sig opts =
          (take (nat (maxDiscover opts)) (collected api sig opts k), map (page_request opts) [1..k])
     \<and> requested_ok api sig opts (ceil_div (maxDiscover opts) perPage) k
     \<and> (k = 0 \<longrightarrow> \<not> (0 < maxDiscover opts \<and> 1 \<le> ceil_div (maxDiscover opts) perPage
                         \<and> \<not> aborted sig 0))
     \<and> (1 \<le> k \<longrightarrow> stops_at api sig opts (ceil_div (maxDiscover opts) perPage) k)"
proof -
  have "\<exists>k. 1 - 1 \<le> k
     \<and> qiita_loop api sig opts (ceil_div (maxDiscover opts) perPage) [] 1 [] =
          (take (nat (maxDiscover opts)) (collected api sig opts k), map (page_request opts) [1..k])
     \<and> requested_ok api sig opts (ceil_div (maxDiscover opts) perPage) k
     \<and> (k = 1 - 1 \<longrightarrow>
           \<not> (int (length ([]::item list)) < maxDiscover opts \<and> 1 \<le> ceil_div (maxDiscover opts) perPage
               \<and> \<not> aborted sig (3 * nat (1 - 1))))
     \<and> (1 \<le> k \<longrightarrow> stops_at api sig opts (ceil_div (maxDiscover opts) perPage) k)"
    by (rule qiita_loop_spec) (simp_all add: collected_0 requested_ok_def)
  then show ?thesis by (simp add: qiita_run_def)
qed

lemma collected_member:
  "it \<in> set (collected api sig opts k) \<Longrightarrow>
   \<exists>p idx. 1 \<le> p \<and> p \<le> k \<and> idx < length (page_data api sig opts p)
        \<and> it = found_item p idx (page_data api sig opts p ! idx)"
  by (fastforce simp: collected_def page_items_def in_set_enumerate_eq)

lemma rank_found_item: "rank (found_item p idx r) = Some ((p - 1) * 100 + int idx + 1)"
  by (simp add: found_item_def perPage_def)

lemma length_push_page:
  "length (push_page maxD pg idx data found) =
     length found + min (nat (maxD - int (length found))) (length data)"
  by (simp add: push_page_take)

lemma qiita_loop_continue:
  assumes "int (length found) < maxDiscover opts" and "pg \<le> maxPages"
    and "api (page_request opts pg) = Items data" and "data \<noteq> []"
  shows "qiita_loop api None opts maxPages found pg reqs =
           qiita_loop api None opts maxPages (push_page (maxDiscover opts) pg 0 data found) (pg + 1)
             (reqs @ [page_request opts pg])"
  using assms by (subst qiita_loop.simps) (simp add: fetch_page_def aborted_def Let_def)

lemma qiita_loop_stop:
  "\<not> int (length found) < maxDiscover opts \<Longrightarrow>
   qiita_loop api sig opts maxPages found pg reqs = (found, reqs)"
  by (subst qiita_loop.simps) simp

lemma full_pages_three_requests:
  assumes m: "maxDiscover opts = 250"
    and full: "\<forall>r. \<exists>data. api r = Items data \<and> length data = 100"
  shows "length (snd (qiita_run api None opts)) = 3"
proof -
  from full obtain d1 where d1: "api (page_request opts 1) = Items d1" "length d1 = 100" by blast
  from full obtain d2 where d2: "api (page_request opts 2) = Items d2" "length d2 = 100" by blast
  from full obtain d3 where d3: "api (page_request opts 3) = Items d3" "length d3 = 100" by blast
  have ne: "d1 \<noteq> []" "d2 \<noteq> []" "d3 \<noteq> []" using d1 d2 d3 by auto
  let ?f1 = "push_page 250 1 0 d1 []"
  let ?f2 = "push_page 250 2 0 d2 ?f1"
  let ?f3 = "push_page 250 3 0 d3 ?f2"
  have l1: "length ?f1 = 100" by (subst length_push_page) (simp add: d1)
  have l2: "length ?f2 = 200" by (subst length_push_page) (simp add: d2 l1)
  have l3: "length ?f3 = 250" by (subst length_push_page) (simp add: d3 l2)
  have s1: "qiita_loop api None opts 3 [] 1 [] = qiita_loop api None opts 3 ?f1 2 [page_request opts 1]"
    using qiita_loop_continue[of "[]" opts 1 3 api d1 "[]"] d1 ne m by simp
  have s2: "qiita_loop api None opts 3 ?f1 2 [page_request opts 1]
          = qiita_loop api None opts 3 ?f2 3 [page_request opts 1, page_request opts 2]"
    using qiita_loop_continue[of ?f1 opts 2 3 api d2 "[page_request opts 1]"] d2 ne m l1 by simp
  have s3: "qiita_loop api None opts 3 ?f2 3 [page_request opts 1, page_request opts 2]
          = qiita_loop api None opts 3 ?f3 4 [page_request opts 1, page_request opts 2, page_request opts 3]"
    using qiita_loop_continue[of ?f2 opts 3 3 api d3 "[page_request opts 1, page_request opts 2]"] d3 ne m l2
    by simp
  have s4: "qiita_loop api None opts 3 ?f3 4 [page_request opts 1, page_request opts 2, page_request opts 3]
          = (?f3, [page_request opts 1, page_request opts 2, page_request opts 3])"
    by (rule qiita_loop_stop) (simp add: m l3)
  have "qiita_run api None opts = (?f3, [page_request opts 1, page_request opts 2, page_request opts 3])"
    using s1 s2 s3 s4 by (simp add: qiita_run_def m ceil_div_def perPage_def)
  then show ?thesis by simp
qed

text \<open>
  Claim C6, amended. For every positive \<open>maxDiscover\<close> and every list of tokens that,
  joined by spaces, is well-formed UTF-16 (so that the query can be encoded), whatever
  the remote API answers and whenever the signal is aborted: the page size is 100; the
  requests issued are those for the pages \<open>1, 2, ..., k\<close> in this order, each with
  \<open>per_page = 100\<close>, and \<open>k\<close> is at most \<open>ceil (maxDiscover / perPage)\<close>; a page is
  requested only while fewer than \<open>maxDiscover\<close> items are collected, the signal is not
  aborted and every earlier page has returned items; no page is requested exactly when
  the signal is aborted at the start, and otherwise the search goes on until a page
  \<open>k\<close> at which it stops: the page yields no item (it is empty, or the request fails),
  or the count is reached with it, or it is the last page under the cap, or the signal
  is aborted by the time the next page would be requested. The search resolves with
  the first \<open>maxDiscover\<close> items of the requested pages in order, each being the element
  \<open>idx\<close> of its page \<open>p\<close> with rank \<open>(p - 1) * 100 + idx + 1\<close>; these are at most
  \<open>maxDiscover\<close> items. With \<open>maxDiscover = 250\<close>, no cancellation and pages of 100
  items, exactly 3 pages are requested.
\<close>

theorem qiita_search_pagination:
  "0 < maxDiscover opts \<Longrightarrow> well_formed (join_space (provider_options.tokens opts)) \<Longrightarrow>
     perPage = 100
   \<and> qiita_requests api sig opts =
       map (page_request opts) [1..int (length (qiita_requests api sig opts))]
   \<and> (\<forall>r \<in> set (qiita_requests api sig opts). per_page r = 100)
   \<and> int (length (qiita_requests api sig opts)) \<le> ceil_div (maxDiscover opts) perPage
   \<and> (\<forall>p \<in> {1..int (length (qiita_requests api sig opts))}.
         int (length (collected api sig opts (p - 1))) < maxDiscover opts
       \<and> \<not> aborted sig (3 * nat (p - 1))
       \<and> (p < int (length (qiita_requests api sig opts)) \<longrightarrow> page_data api sig opts p \<noteq> []))
   \<and> (qiita_requests api sig opts = [] \<longleftrightarrow> aborted sig 0)
   \<and> (qiita_requests api sig opts \<noteq> [] \<longrightarrow>
         stops_at api sig opts (ceil_div (maxDiscover opts) perPage)
           (int (length (qiita_requests api sig opts))))
   \<and> (\<exists>found. qiita_search api sig opts = Resolves found
         \<and> found = take (nat (maxDiscover opts))
                     (collected api sig opts (int (length (qiita_requests api sig opts))))
         \<and> (\<forall>it \<in> set found.
               \<exists>p idx. 1 \<le> p \<and> p \<le> int (length (qiita_requests api sig opts))
                 \<and> idx < length (page_data api sig opts p)
                 \<and> it = found_item p idx (page_data api sig opts p ! idx)
                 \<and> rank it = Some ((p - 1) * 100 + int idx + 1))
         \<and> int (length found) \<le> maxDiscover opts)
   \<and> (maxDiscover opts = 250 \<and> sig = None
        \<and> (\<forall>r. \<exists>data. api r = Items data \<and> length data = 100) \<longrightarrow>
        length (qiita_requests api sig opts) = 3)"
proof -
  assume pos: "0 < maxDiscover opts"
    and wf: "well_formed (join_space (provider_options.tokens opts))"
  let ?maxPages = "ceil_div (maxDiscover opts) perPage"
  obtain k where k: "0 \<le> k"
    and run: "qiita_run api sig opts =
          (take (nat (maxDiscover opts)) (collected api sig opts k), map (page_request opts) [1..k])"
    and ok: "requested_ok api sig opts ?maxPages k"
    and none: "k = 0 \<longrightarrow> \<not> (0 < maxDiscover opts \<and> 1 \<le> ?maxPages \<and> \<not> aborted sig 0)"
    and stop: "1 \<le> k \<longrightarrow> stops_at api sig opts ?maxPages k"
    using qiita_run_spec by blast
  have reqs: "qiita_requests api sig opts = map (page_request opts) [1..k]"
    using wf by (simp add: qiita_requests_def run)
  have len: "int (length (qiita_requests api sig opts)) = k"
    using k by (simp add: reqs)
  have empty: "qiita_requests api sig opts = [] \<longleftrightarrow> k = 0"
    using len by (metis length_0_conv of_nat_0 of_nat_eq_iff)
  have srch: "qiita_search api sig opts = Resolves (take (nat (maxDiscover opts)) (collected api sig opts k))"
    using pos wf by (simp add: qiita_search_def run slice0_def)
  have pages: "1 \<le> ?maxPages" using pos by (simp add: ceil_div_def perPage_def)
  have c1: "perPage = 100" by (simp add: perPage_def)
  have d1: "qiita_requests api sig opts = map (page_request opts) [1..int (length (qiita_requests api sig opts))]"
    unfolding len by (rule reqs)
  have d2: "\<forall>r \<in> set (qiita_requests api sig opts). per_page r = 100"
    by (auto simp: reqs page_request_def perPage_def)
  have d3: "int (length (qiita_requests api sig opts)) \<le> ?maxPages"
  proof (cases "k = 0")
    case True
    then show ?thesis using pages by (simp add: len)
  next
    case False
    with k have "k \<in> {1..k}" by simp
    with ok have "k \<le> ?maxPages" unfolding requested_ok_def by blast
    then show ?thesis by (simp add: len)
  qed
  have d4: "\<forall>p \<in> {1..int (length (qiita_requests api sig opts))}.
         int (length (collected api sig opts (p - 1))) < maxDiscover opts
       \<and> \<not> aborted sig (3 * nat (p - 1))
       \<and> (p < int (length (qiita_requests api sig opts)) \<longrightarrow> page_data api sig opts p \<noteq> [])"
    unfolding len using ok unfolding requested_ok_def by blast
  have d5: "qiita_requests api sig opts = [] \<longleftrightarrow> aborted sig 0"
  proof
    assume "qiita_requests api sig opts = []"
    then have "k = 0" using empty by simp
    with none pos pages show "aborted sig 0" by simp
  next
    assume ab: "aborted sig 0"
    show "qiita_requests api sig opts = []"
    proof (rule ccontr)
      assume "qiita_requests api sig opts \<noteq> []"
      then have "k \<noteq> 0" using empty by simp
      with k have "1 \<in> {1..k}" by simp
      with ok have "\<not> aborted sig (3 * nat (1 - 1))" unfolding requested_ok_def by blast
      with ab show False by simp
    qed
  qed
  have d6: "qiita_requests api sig opts \<noteq> [] \<longrightarrow>
           stops_at api sig opts ?maxPages (int (length (qiita_requests api sig opts)))"
    unfolding len using empty stop k by auto
  have d7: "\<exists>found. qiita_search api sig opts = Resolves found
           \<and> found = take (nat (maxDiscover opts))
                       (collected api sig opts (int (length (qiita_requests api sig opts))))
           \<and> (\<forall>it \<in> set found.
                 \<exists>p idx. 1 \<le> p \<and> p \<le> int (length (qiita_requests api sig opts))
                   \<and> idx < length (page_data api sig opts p)
                   \<and> it = found_item p idx (page_data api sig opts p ! idx)
                   \<and> rank it = Some ((p - 1) * 100 + int idx + 1))
           \<and> int (length found) \<le> maxDiscover opts"
  proof (intro exI conjI)
    show "qiita_search api sig opts = Resolves (take (nat (maxDiscover opts)) (collected api sig opts k))"
      by (rule srch)
    show "take (nat (maxDiscover opts)) (collected api sig opts k) =
            take (nat (maxDiscover opts)) (collected api sig opts (int (length (qiita_requests api sig opts))))"
      by (simp only: len)
    show "\<forall>it \<in> set (take (nat (maxDiscover opts)) (collected api sig opts k)).
                 \<exists>p idx. 1 \<le> p \<and> p \<le> int (length (qiita_requests api sig opts))
                   \<and> idx < length (page_data api sig opts p)
                   \<and> it = found_item p idx (page_data api sig opts p ! idx)
                   \<and> rank it = Some ((p - 1) * 100 + int idx + 1)"
    proof
      fix it assume "it \<in> set (take (nat (maxDiscover opts)) (collected api sig opts k))"
      then have "it \<in> set (collected api sig opts k)" by (rule in_set_takeD)
      then obtain p idx where "1 \<le> p" "p \<le> k" "idx < length (page_data api sig opts p)"
        "it = found_item p idx (page_data api sig opts p ! idx)"
        using collected_member by blast
      then show "\<exists>p idx. 1 \<le> p \<and> p \<le> int (length (qiita_requests api sig opts))
           \<and> idx < length (page_data api sig opts p)
           \<and> it = found_item p idx (page_data api sig opts p ! idx)
           \<and> rank it = Some ((p - 1) * 100 + int idx + 1)"
        unfolding len using rank_found_item by blast
    qed
    show "int (length (take (nat (maxDiscover opts)) (collected api sig opts k))) \<le> maxDiscover opts"
      using pos by simp
  qed
  have d8: "maxDiscover opts = 250 \<and> sig = None
        \<and> (\<forall>r. \<exists>data. api r = Items data \<and> length data = 100) \<longrightarrow>
        length (qiita_requests api sig opts) = 3"
    using full_pages_three_requests[of opts api] wf by (auto simp: qiita_requests_def)
  from c1 d1 d2 d3 d4 d5 d6 d7 d8 show ?thesis by (intro conjI)
qed

text \<open>
  The search for 250 items against the API with full pages, which stops at the third
  page, the last under the cap; and the search for 150 items against the example API,
  whose first page has three articles and whose second page is empty.
\<close>

theorem qiita_search_pagination_witness:
  "(0::int) < maxDiscover \<lparr> provider_options.tokens = [[97], [98]], maxDiscover = 250 \<rparr>
   \<and> well_formed (join_space (provider_options.tokens \<lparr> provider_options.tokens = [[97], [98]], maxDiscover = 250 \<rparr>))
   \<and> length (qiita_requests full_api None \<lparr> provider_options.tokens = [[97], [98]], maxDiscover = 250 \<rparr>) = 3
   \<and> stops_at full_api None \<lparr> provider_options.tokens = [[97], [98]], maxDiscover = 250 \<rparr> (ceil_div 250 perPage) 3
   \<and> ceil_div 250 perPage = 3
   \<and> qiita_requests example_api None \<lparr> provider_options.tokens = [[97], [98]], maxDiscover = 150 \<rparr>
       = [\<lparr> query = [97, 32, 98], page = 1, per_page = 100 \<rparr>,
          \<lparr> query = [97, 32, 98], page = 2, per_page = 100 \<rparr>]
   \<and> ceil_div 150 perPage = 2"
proof -
  let ?o250 = "\<lparr> provider_options.tokens = [[97], [98]], maxDiscover = 250 \<rparr>"
  let ?o150 = "\<lparr> provider_options.tokens = [[97], [98]], maxDiscover = 150 \<rparr>"
  have pos: "(0::int) < maxDiscover ?o250" by simp
  have wf: "well_formed (join_space (provider_options.tokens ?o250))"
    by (simp add: is_high_surrogate_def is_low_surrogate_def)
  have full: "\<forall>r. \<exists>data. full_api r = Items data \<and> length data = 100"
    by (simp add: full_api_def)
  note inst = qiita_search_pagination [OF pos wf, of full_api None]
  have three: "length (qiita_requests full_api None ?o250) = 3"
    using inst [THEN conjunct2, THEN conjunct2, THEN conjunct2, THEN conjunct2, THEN conjunct2,
                THEN conjunct2, THEN conjunct2, THEN conjunct2] full
    by simp
  then have ne: "qiita_requests full_api None ?o250 \<noteq> []" by auto
  have stop: "stops_at full_api None ?o250 (ceil_div 250 perPage) 3"
    using inst [THEN conjunct2, THEN conjunct2, THEN conjunct2, THEN conjunct2, THEN conjunct2,
                THEN conjunct2, THEN conjunct1, THEN mp, OF ne] three
    by simp
  have c250: "ceil_div 250 perPage = 3" by (simp add: ceil_div_def perPage_def)
  have reqs: "qiita_requests example_api None ?o150
       = [\<lparr> query = [97, 32, 98], page = 1, per_page = 100 \<rparr>,
          \<lparr> query = [97, 32, 98], page = 2, per_page = 100 \<rparr>]"
    by (simp add: example_defs)
  have c: "ceil_div 150 perPage = 2" by (simp add: ceil_div_def perPage_def)
  from pos wf three stop c250 reqs c show ?thesis by (intro conjI)
qed

text \<open>
  The claim as stated fails in the search for 250 items against the API with full
  pages, in two ways. When the signal is aborted after the first page, at the time the
  loop looks at it again, one page is requested, not three. When the query cannot be
  encoded (the single token U+D83D is a high surrogate without its low surrogate),
  \<^verbatim>\<open>encodeURIComponent\<close> throws: the search rejects and requests no page.
\<close>

theorem qiita_search_counterexample:
  "qiita_requests full_api (Some 3) \<lparr> provider_options.tokens = [[97]], maxDiscover = 250 \<rparr>
     = [\<lparr> query = [97], page = 1, per_page = 100 \<rparr>]
   \<and> qiita_search full_api None \<lparr> provider_options.tokens = [[55357]], maxDiscover = 250 \<rparr>
       = Rejects (OtherError ''URIError'')
   \<and> qiita_requests full_api None \<lparr> provider_options.tokens = [[55357]], maxDiscover = 250 \<rparr> = []"
  by (simp add: example_defs full_api_def length_push_page Let_def)

end
